theory Spec2Isabelle
  imports Complex_Main "HOL-Library.Word" "HOL-Library.Log_Nat" "HOL-Library.Multiset"
begin

section \<open>Pixel buffers\<close>

text \<open>
  \<^verbatim>\<open>ImageData\<close> of the browser: a width, a height and a flat \<^verbatim>\<open>Uint8ClampedArray\<close>
  of four bytes per pixel (R, G, B, A), row after row.  The constructor gives the array
  the length \<open>4 * width * height\<close>; the functions below never change its length.
\<close>

type_synonym byte = "8 word"

record ImageData =
  width :: nat
  height :: nat
  data :: "byte list"

definition wellFormed :: "ImageData \<Rightarrow> bool" where
  "wellFormed img \<longleftrightarrow> length (data img) = 4 * (width img * height img)"

text \<open>
  Reading a typed array at an index outside of it gives \<^verbatim>\<open>undefined\<close> (here \<open>None\<close>);
  a write outside of it is ignored.  Indices are JavaScript numbers and may be negative.
\<close>

definition rd :: "byte list \<Rightarrow> int \<Rightarrow> byte option" where
  "rd d i = (if 0 \<le> i \<and> i < int (length d) then Some (d ! nat i) else None)"

definition wr :: "byte list \<Rightarrow> int \<Rightarrow> byte \<Rightarrow> byte list" where
  "wr d i v = (if 0 \<le> i \<and> i < int (length d) then d[nat i := v] else d)"

lemma rd_SomeD:
  assumes "rd d i = Some b"
  shows "0 \<le> i" and "nat i < length d" and "d ! nat i = b"
  using assms by (auto simp: rd_def split: if_splits)

text \<open>\<^verbatim>\<open>setPixelData(data, i, color)\<close>: four consecutive writes.\<close>

definition setPixelData :: "byte list \<Rightarrow> int \<Rightarrow> byte \<times> byte \<times> byte \<times> byte \<Rightarrow> byte list" where
  "setPixelData d i color =
     (case color of (c0, c1, c2, c3) \<Rightarrow>
        wr (wr (wr (wr d i c0) (i + 1) c1) (i + 2) c2) (i + 3) c3)"

text \<open>\<^verbatim>\<open>new ImageData(width, height)\<close>: all bytes zero.\<close>

definition newImageData :: "nat \<Rightarrow> nat \<Rightarrow> ImageData" where
  "newImageData w h = \<lparr>width = w, height = h, data = replicate (4 * (w * h)) 0\<rparr>"

section \<open>Double-precision arithmetic of the luminance\<close>

text \<open>
  JavaScript numbers are IEEE-754 binary64 values.  Every finite double is a rational
  number, and \<open>*\<close> and \<open>+\<close> return the exact result rounded to the nearest double, ties
  to the even significand.  \<open>fl\<close> is that rounding for the normal range (53 significant
  bits); the luminance of a pixel stays between \<open>0\<close> and \<open>255\<close>, far from overflow and
  from subnormal numbers.
\<close>

definition ilog2 :: "rat \<Rightarrow> int" where
  "ilog2 v = (case quotient_of v of (p, q) \<Rightarrow>
     (let k = bitlen p - bitlen q in if power_int 2 k \<le> v then k else k - 1))"

definition roundEven :: "rat \<Rightarrow> int" where
  "roundEven r = (let f = \<lfloor>r\<rfloor>; d = r - of_int f in
     if d < 1 / 2 then f else if 1 / 2 < d then f + 1 else if even f then f else f + 1)"

definition fl :: "rat \<Rightarrow> rat" where
  "fl v = (if v = 0 then 0 else
     (let q = power_int 2 (ilog2 \<bar>v\<bar> - 52) in sgn v * of_int (roundEven (\<bar>v\<bar> / q)) * q))"

text \<open>\<^verbatim>\<open>0.2126 * r + 0.7152 * g + 0.0722 * b\<close>, evaluated left to right.\<close>

definition luminance :: "byte \<Rightarrow> byte \<Rightarrow> byte \<Rightarrow> rat" where
  "luminance r g b =
     fl (fl (fl (fl (2126 / 10000) * of_nat (unat r)) + fl (fl (7152 / 10000) * of_nat (unat g)))
         + fl (fl (722 / 10000) * of_nat (unat b)))"

text \<open>
  \<^verbatim>\<open>luminance < threshold\<close>.  With an \<^verbatim>\<open>undefined\<close> operand the sum is NaN and the
  comparison is false.
\<close>

definition isDark :: "byte option \<Rightarrow> byte option \<Rightarrow> byte option \<Rightarrow> bool" where
  "isDark r g b = (case (r, g, b) of
     (Some r', Some g', Some b') \<Rightarrow> luminance r' g' b' < 100
   | _ \<Rightarrow> False)"

section \<open>Thresholder: \<^verbatim>\<open>createMask\<close>\<close>

function createMaskLoop :: "byte list \<Rightarrow> nat \<Rightarrow> byte list \<Rightarrow> byte list" where
  "createMaskLoop d i m =
     (if i < length d then
        createMaskLoop d (i + 4)
          (if isDark (rd d (int i)) (rd d (int i + 1)) (rd d (int i + 2))
           then setPixelData m (int i) (0, 0, 0, 255)
           else setPixelData m (int i) (255, 255, 255, 255))
      else m)"
  by pat_completeness auto
termination
  by (relation "measure (\<lambda>(d, i, m). length d - i)") auto

declare createMaskLoop.simps [simp del]

definition createMask :: "ImageData \<Rightarrow> ImageData" where
  "createMask imageData =
     (let mask = newImageData (width imageData) (height imageData) in
      mask\<lparr>data := createMaskLoop (data imageData) 0 (data mask)\<rparr>)"

section \<open>Component labeler\<close>

type_synonym coord = "int \<times> int"

record Component =
  pixels :: "coord list"
  minX :: int
  minY :: int
  maxX :: int
  maxY :: int

text \<open>
  One turn of \<^verbatim>\<open>for (const [nx, ny] of neighbors)\<close>: the bounds check, then the reads
  of \<^verbatim>\<open>data[nIdx * 4]\<close> and \<^verbatim>\<open>visited[nIdx]\<close>, then the mark and the push.  The
  stack is a list whose head is the top.
\<close>

definition visitNeighbor ::
  "nat \<Rightarrow> nat \<Rightarrow> byte list \<Rightarrow> coord \<Rightarrow> byte list \<times> coord list \<Rightarrow> byte list \<times> coord list" where
  "visitNeighbor w h d n s =
     (case n of (nx, ny) \<Rightarrow> case s of (visited, stack) \<Rightarrow>
        if 0 \<le> nx \<and> nx < int w \<and> 0 \<le> ny \<and> ny < int h then
          (let nIdx = ny * int w + nx in
           if rd d (nIdx * 4) = Some 0 \<and> rd visited nIdx = Some 0
           then (wr visited nIdx 1, n # stack)
           else (visited, stack))
        else (visited, stack))"

definition neighbors :: "coord \<Rightarrow> coord list" where
  "neighbors c = (case c of (cx, cy) \<Rightarrow> [(cx + 1, cy), (cx - 1, cy), (cx, cy + 1), (cx, cy - 1)])"

definition addPixel :: "Component \<Rightarrow> coord \<Rightarrow> Component" where
  "addPixel cmp c = (case c of (cx, cy) \<Rightarrow>
     \<lparr>pixels = pixels cmp @ [(cx, cy)],
      minX = (if cx < minX cmp then cx else minX cmp),
      minY = (if cy < minY cmp then cy else minY cmp),
      maxX = (if maxX cmp < cx then cx else maxX cmp),
      maxY = (if maxY cmp < cy then cy else maxY cmp)\<rparr>)"

text \<open>Number of cells of \<^verbatim>\<open>visited\<close> that are still 0: what the traversal uses up.\<close>

definition zeros :: "byte list \<Rightarrow> nat" where
  "zeros v = length (filter (\<lambda>b. b = 0) v)"

lemma zeros_update:
  "i < length v \<Longrightarrow> v ! i = 0 \<Longrightarrow> b \<noteq> 0 \<Longrightarrow> Suc (zeros (v[i := b])) = zeros v"
proof (induction v arbitrary: i)
  case Nil
  then show ?case by simp
next
  case (Cons a v)
  then show ?case by (cases i) (auto simp: zeros_def)
qed

lemma visitNeighbor_measure:
  assumes "visitNeighbor w h d n (v, st) = (v', st')"
  shows "2 * zeros v' + length st' \<le> 2 * zeros v + length st"
proof -
  obtain nx ny where n: "n = (nx, ny)" by (cases n)
  let ?i = "ny * int w + nx"
  show ?thesis
  proof (cases "0 \<le> nx \<and> nx < int w \<and> 0 \<le> ny \<and> ny < int h \<and>
                rd d (?i * 4) = Some 0 \<and> rd v ?i = Some 0")
    case True
    then have "rd v ?i = Some 0" by simp
    then have r: "0 \<le> ?i" "nat ?i < length v" "v ! nat ?i = 0"
      by (rule rd_SomeD)+
    from True assms n r have "v' = v[nat ?i := 1]" "st' = n # st"
      by (auto simp: visitNeighbor_def wr_def Let_def)
    with zeros_update [OF r(2) r(3), of 1] show ?thesis by simp
  next
    case False
    with assms n have "v' = v" "st' = st"
      by (auto simp: visitNeighbor_def Let_def split: if_splits)
    then show ?thesis by simp
  qed
qed

lemma fold_visitNeighbor_measure:
  "fold (visitNeighbor w h d) ns (v, st) = (v', st') \<Longrightarrow>
     2 * zeros v' + length st' \<le> 2 * zeros v + length st"
proof (induction ns arbitrary: v st)
  case Nil
  then show ?case by simp
next
  case (Cons n ns)
  obtain v1 st1 where s1: "visitNeighbor w h d n (v, st) = (v1, st1)"
    by (cases "visitNeighbor w h d n (v, st)")
  from Cons.prems s1 have "fold (visitNeighbor w h d) ns (v1, st1) = (v', st')"
    by simp
  from Cons.IH [OF this] visitNeighbor_measure [OF s1] show ?case
    by simp
qed

text \<open>
  The \<^verbatim>\<open>while (stack.length > 0)\<close> loop of one component: pop, record the pixel and
  extend the bounding box, then visit the four neighbours.
\<close>

function labelLoop ::
  "nat \<Rightarrow> nat \<Rightarrow> byte list \<Rightarrow> coord list \<Rightarrow> byte list \<Rightarrow> Component \<Rightarrow> byte list \<times> Component" where
  "labelLoop w h d [] visited cmp = (visited, cmp)"
| "labelLoop w h d (c # stack) visited cmp =
     (case fold (visitNeighbor w h d) (neighbors c) (visited, stack) of
        (visited', stack') \<Rightarrow> labelLoop w h d stack' visited' (addPixel cmp c))"
  by pat_completeness auto
termination
  by (relation "measure (\<lambda>(w, h, d, stack, visited, cmp). 2 * zeros visited + length stack)")
    (auto dest: fold_visitNeighbor_measure [OF sym])

text \<open>
  The body of the two nested \<^verbatim>\<open>for\<close> statements at pixel \<open>(x, y)\<close>; \<^verbatim>\<open>components.push\<close> appends.
\<close>

definition scanPixel ::
  "ImageData \<Rightarrow> int \<Rightarrow> int \<Rightarrow> byte list \<times> Component list \<Rightarrow> byte list \<times> Component list" where
  "scanPixel imageData y x s =
     (case s of (visited, components) \<Rightarrow>
        (let w = width imageData; h = height imageData; d = data imageData;
             idx = y * int w + x in
         if rd d (idx * 4) = Some 0 \<and> rd visited idx = Some 0 then
           (case labelLoop w h d [(x, y)] (wr visited idx 1)
                   \<lparr>pixels = [], minX = int w, minY = int h, maxX = - 1, maxY = - 1\<rparr> of
              (visited', cmp) \<Rightarrow> (visited', components @ [cmp]))
         else (visited, components)))"

definition labelComponents :: "ImageData \<Rightarrow> Component list" where
  "labelComponents imageData =
     snd (fold (\<lambda>y. fold (\<lambda>x. scanPixel imageData (int y) (int x)) [0..<width imageData])
            [0..<height imageData]
            (replicate (width imageData * height imageData) 0, []))"

section \<open>Object selector\<close>

definition area :: "Component \<Rightarrow> int" where
  "area cmp = (maxX cmp - minX cmp) * (maxY cmp - minY cmp)"

text \<open>
  \<^verbatim>\<open>mainFrame\<close> is a reference to one of the objects of \<^verbatim>\<open>components\<close>, and
  \<^verbatim>\<open>cmp === mainFrame\<close> compares references.  Every element of the array is an object
  of its own, so a reference is the position in the array: the scan keeps the position
  of \<^verbatim>\<open>mainFrame\<close> together with \<^verbatim>\<open>maxArea\<close>.
\<close>

definition pickMain :: "nat \<times> Component \<Rightarrow> nat \<times> int \<Rightarrow> nat \<times> int" where
  "pickMain kc s = (case kc of (k, cmp) \<Rightarrow> case s of (mainFrame, maxArea) \<Rightarrow>
     if maxArea < area cmp then (k, area cmp) else (mainFrame, maxArea))"

definition mainFrameIndex :: "Component list \<Rightarrow> nat" where
  "mainFrameIndex components = fst (fold pickMain (enumerate 0 components) (0, - 1))"

text \<open>
  The centre of the box is \<^verbatim>\<open>minX + (maxX - minX) / 2\<close>; on integers of the size of a
  canvas the halves are exact doubles, so the rationals compute what the code computes.
\<close>

definition centerInside :: "Component \<Rightarrow> Component \<Rightarrow> bool" where
  "centerInside mainFrame cmp =
     (let centerX = (of_int (minX cmp) + (of_int (maxX cmp) - of_int (minX cmp)) / 2 :: rat);
          centerY = (of_int (minY cmp) + (of_int (maxY cmp) - of_int (minY cmp)) / 2 :: rat) in
      of_int (minX mainFrame) \<le> centerX \<and> centerX \<le> of_int (maxX mainFrame) \<and>
      of_int (minY mainFrame) \<le> centerY \<and> centerY \<le> of_int (maxY mainFrame))"

definition objectComponents :: "Component list \<Rightarrow> Component list" where
  "objectComponents components =
     (let m = mainFrameIndex components; mainFrame = components ! m in
      mainFrame # map snd (filter (\<lambda>(k, cmp). k \<noteq> m \<and> centerInside mainFrame cmp)
                             (enumerate 0 components)))"

definition paintPixel :: "nat \<Rightarrow> coord \<Rightarrow> byte list \<Rightarrow> byte list" where
  "paintPixel w p d = (case p of (px, py) \<Rightarrow>
     setPixelData d ((py * int w + px) * 4) (0, 0, 0, 255))"

definition findObjectContours :: "ImageData \<Rightarrow> ImageData" where
  "findObjectContours imageData =
     (let w = width imageData; h = height imageData;
          components = labelComponents imageData;
          newMask = (newImageData w h)\<lparr>data := map (\<lambda>_. 255) (data (newImageData w h))\<rparr> in
      if length components = 0 then newMask
      else newMask\<lparr>data :=
             fold (\<lambda>component. fold (paintPixel w) (pixels component))
               (objectComponents components) (data newMask)\<rparr>)"

section \<open>Exterior filler: \<^verbatim>\<open>floodFill\<close>\<close>

definition isWhite :: "byte list \<Rightarrow> int \<Rightarrow> bool" where
  "isWhite d i \<longleftrightarrow> rd d i = Some 255 \<and> rd d (i + 1) = Some 255 \<and> rd d (i + 2) = Some 255"

definition fillColor :: "byte \<times> byte \<times> byte \<times> byte" where
  "fillColor = (255, 0, 0, 255)"

text \<open>Number of bytes equal to 255: each fill step turns two of them into 0.\<close>

definition fulls :: "byte list \<Rightarrow> nat" where
  "fulls d = length (filter (\<lambda>b. b = 255) d)"

lemma fulls_update_le: "fulls (v[i := b]) \<le> Suc (fulls v)"
proof (induction v arbitrary: i)
  case Nil
  then show ?case by simp
next
  case (Cons a v)
  show ?case
  proof (cases i)
    case 0
    then show ?thesis by (simp add: fulls_def)
  next
    case (Suc k)
    with Cons.IH [of k] show ?thesis by (simp add: fulls_def)
  qed
qed

lemma fulls_update_dec:
  "i < length v \<Longrightarrow> v ! i = 255 \<Longrightarrow> b \<noteq> 255 \<Longrightarrow> Suc (fulls (v[i := b])) = fulls v"
proof (induction v arbitrary: i)
  case Nil
  then show ?case by simp
next
  case (Cons a v)
  then show ?case by (cases i) (auto simp: fulls_def)
qed

lemma rd_wr_other: "i \<noteq> j \<Longrightarrow> rd (wr d i v) j = rd d j"
  by (auto simp: rd_def wr_def nat_eq_iff)

lemma rd_wr_same: "rd (wr d i v) i = (if 0 \<le> i \<and> i < int (length d) then Some v else None)"
  by (auto simp: rd_def wr_def)

lemma length_wr [simp]: "length (wr d i v) = length d"
  by (simp add: wr_def)

lemma length_setPixelData [simp]: "length (setPixelData d i color) = length d"
  by (simp add: setPixelData_def split: prod.splits)

lemma wr_in: "0 \<le> i \<Longrightarrow> nat i < length d \<Longrightarrow> wr d i v = d[nat i := v]"
  by (auto simp: wr_def)

lemma fulls_wr_le: "fulls (wr d i v) \<le> Suc (fulls d)"
  by (simp add: wr_def fulls_update_le)

lemma fulls_wr_dec:
  assumes "rd d i = Some 255" and "v \<noteq> 255"
  shows "Suc (fulls (wr d i v)) = fulls d"
  using rd_SomeD [OF assms(1)] assms(2) by (simp add: wr_in fulls_update_dec)

lemma wr_same_value:
  assumes "rd d i = Some v"
  shows "wr d i v = d"
  using rd_SomeD [OF assms] by (auto simp: wr_in)

lemma fulls_fill:
  assumes "isWhite d i"
  shows "Suc (fulls (setPixelData d i fillColor)) \<le> fulls d"
proof -
  from assms have r0: "rd d i = Some 255" and r1: "rd d (i + 1) = Some 255"
    and r2: "rd d (i + 2) = Some 255"
    by (simp_all add: isWhite_def)
  define d2 where "d2 = wr d (i + 1) 0"
  define d3 where "d3 = wr d2 (i + 2) 0"
  have e2: "Suc (fulls d2) = fulls d"
    unfolding d2_def by (rule fulls_wr_dec [OF r1]) simp
  have "rd d2 (i + 2) = Some 255"
    using r2 by (simp add: d2_def rd_wr_other)
  then have e3: "Suc (fulls d3) = fulls d2"
    unfolding d3_def by (rule fulls_wr_dec) simp
  have e4: "fulls (wr d3 (i + 3) 255) \<le> Suc (fulls d3)"
    by (rule fulls_wr_le)
  have "setPixelData d i fillColor = wr d3 (i + 3) 255"
    by (simp add: setPixelData_def fillColor_def wr_same_value [OF r0] d2_def d3_def)
  with e2 e3 e4 show ?thesis
    by simp
qed

text \<open>
  The \<^verbatim>\<open>while (stack.length)\<close> loop.  \<^verbatim>\<open>stack.push(a, b, c, d)\<close> leaves \<open>d\<close> on top.
\<close>

function floodLoop :: "nat \<Rightarrow> nat \<Rightarrow> coord list \<Rightarrow> byte list \<Rightarrow> byte list" where
  "floodLoop w h [] d = d"
| "floodLoop w h ((x, y) # stack) d =
     (if x < 0 \<or> int w \<le> x \<or> y < 0 \<or> int h \<le> y then floodLoop w h stack d
      else if isWhite d ((y * int w + x) * 4) then
        floodLoop w h ((x, y - 1) # (x, y + 1) # (x - 1, y) # (x + 1, y) # stack)
          (setPixelData d ((y * int w + x) * 4) fillColor)
      else floodLoop w h stack d)"
  by pat_completeness auto
termination
  by (relation "measure (\<lambda>(w, h, stack, d). 4 * fulls d + length stack)")
    (auto dest: fulls_fill)

definition floodFill :: "ImageData \<Rightarrow> int \<Rightarrow> int \<Rightarrow> ImageData" where
  "floodFill imageData startX startY =
     (let w = width imageData; h = height imageData; d = data imageData;
          startIdx = (startY * int w + startX) * 4 in
      if rd d startIdx = Some 0 \<or> (rd d startIdx = Some 255 \<and> rd d (startIdx + 1) = Some 0)
      then imageData
      else imageData\<lparr>data := floodLoop w h [(startX, startY)] d\<rparr>)"

section \<open>Compositor and the pipeline of \<^verbatim>\<open>process\<close>\<close>

function composeLoop :: "byte list \<Rightarrow> nat \<Rightarrow> byte list \<Rightarrow> byte list" where
  "composeLoop src i res =
     (if i < length src then
        composeLoop src (i + 4)
          (let r = rd src (int i); g = rd src (int i + 1) in
           if r = Some 255 \<and> g = Some 0 then setPixelData res (int i) (0, 0, 0, 0)
           else if r = Some 0 then setPixelData res (int i) (0, 0, 0, 255)
           else setPixelData res (int i) (255, 255, 255, 255))
      else res)"
  by pat_completeness auto
termination
  by (relation "measure (\<lambda>(src, i, res). length src - i)") auto

declare composeLoop.simps [simp del]

text \<open>
  The four corner fills of \<^verbatim>\<open>process\<close>, on the mask they mutate in turn.
\<close>

definition fillCorners :: "ImageData \<Rightarrow> ImageData" where
  "fillCorners objectMask =
     (let m1 = floodFill objectMask 0 0;
          m2 = floodFill m1 (int (width m1) - 1) 0;
          m3 = floodFill m2 0 (int (height m2) - 1) in
      floodFill m3 (int (width m3) - 1) (int (height m3) - 1))"

text \<open>
  \<^verbatim>\<open>process\<close> between \<^verbatim>\<open>getImageData\<close> and \<^verbatim>\<open>putImageData\<close>: the decoded buffer
  in, the result buffer out.  Decoding the image and encoding the result are the
  browser's.
\<close>

definition processCore :: "ImageData \<Rightarrow> ImageData" where
  "processCore originalImageData =
     (let binaryMask = createMask originalImageData;
          objectMask = fillCorners (findObjectContours binaryMask);
          resultData = newImageData (width originalImageData) (height originalImageData) in
      resultData\<lparr>data := composeLoop (data objectMask) 0 (data resultData)\<rparr>)"


section \<open>4-connectivity\<close>

text \<open>
  \<open>connected A p q\<close>: there is a path from \<open>p\<close> to \<open>q\<close>, each step to one of the four
  neighbours, all of whose pixels are in \<open>A\<close>.
\<close>

inductive connected :: "coord set \<Rightarrow> coord \<Rightarrow> coord \<Rightarrow> bool" for A :: "coord set" where
  here: "p \<in> A \<Longrightarrow> connected A p p"
| step: "p \<in> A \<Longrightarrow> q \<in> set (neighbors p) \<Longrightarrow> connected A q r \<Longrightarrow> connected A p r"

definition Reach :: "coord set \<Rightarrow> coord set \<Rightarrow> coord set" where
  "Reach A T = {q. \<exists>s\<in>T. connected A s q}"

lemma neighbors_sym: "q \<in> set (neighbors p) \<Longrightarrow> p \<in> set (neighbors q)"
  by (cases p; cases q) (auto simp: neighbors_def)

lemma connected_source: "connected A p q \<Longrightarrow> p \<in> A"
  by (induction rule: connected.induct) auto

lemma connected_target: "connected A p q \<Longrightarrow> q \<in> A"
  by (induction rule: connected.induct) auto

lemma connected_mono: "connected A p q \<Longrightarrow> A \<subseteq> B \<Longrightarrow> connected B p q"
  by (induction rule: connected.induct) (auto intro: connected.intros)

lemma connected_trans: "connected A p q \<Longrightarrow> connected A q r \<Longrightarrow> connected A p r"
  by (induction rule: connected.induct) (auto intro: connected.intros)

lemma connected_sym: "connected A p q \<Longrightarrow> connected A q p"
proof (induction rule: connected.induct)
  case (here p)
  then show ?case by (rule connected.here)
next
  case (step p q r)
  have "q \<in> A" using step.hyps(3) by (rule connected_source)
  moreover have "p \<in> set (neighbors q)" using step.hyps(2) by (rule neighbors_sym)
  moreover have "connected A p p" using step.hyps(1) by (rule connected.here)
  ultimately have "connected A q p" by (rule connected.step)
  with step.IH show ?case by (rule connected_trans)
qed

text \<open>Taking a pixel \<open>c\<close> out of \<open>A\<close>: a path either avoids it or goes on from a neighbour.\<close>

lemma connected_avoid:
  "connected A s q \<Longrightarrow> q \<noteq> c \<Longrightarrow>
     connected (A - {c}) s q \<or> (\<exists>n\<in>set (neighbors c). connected (A - {c}) n q)"
proof (induction rule: connected.induct)
  case (here p)
  then show ?case by (auto intro: connected.here)
next
  case (step p q r)
  from step.IH [OF step.prems] show ?case
  proof
    assume rest: "connected (A - {c}) q r"
    show ?thesis
    proof (cases "p = c")
      case True
      with step.hyps(2) rest show ?thesis by auto
    next
      case False
      with step.hyps(1,2) rest have "connected (A - {c}) p r"
        by (auto intro: connected.step)
      then show ?thesis ..
    qed
  next
    assume "\<exists>n\<in>set (neighbors c). connected (A - {c}) n r"
    then show ?thesis ..
  qed
qed

lemma Reach_pop:
  assumes "c \<in> A"
  shows "Reach A (insert c T) = insert c (Reach (A - {c}) (set (neighbors c) \<union> T))"
proof (intro set_eqI iffI)
  fix q
  assume "q \<in> Reach A (insert c T)"
  then obtain s where s: "s = c \<or> s \<in> T" and path: "connected A s q"
    unfolding Reach_def by blast
  show "q \<in> insert c (Reach (A - {c}) (set (neighbors c) \<union> T))"
  proof (cases "q = c")
    case True
    then show ?thesis by simp
  next
    case False
    from connected_avoid [OF path False] show ?thesis
    proof
      assume p: "connected (A - {c}) s q"
      then have "s \<noteq> c" using connected_source [OF p] by auto
      with s p show ?thesis by (auto simp: Reach_def)
    next
      assume "\<exists>n\<in>set (neighbors c). connected (A - {c}) n q"
      then show ?thesis by (auto simp: Reach_def)
    qed
  qed
next
  fix q
  assume q: "q \<in> insert c (Reach (A - {c}) (set (neighbors c) \<union> T))"
  show "q \<in> Reach A (insert c T)"
  proof (cases "q = c")
    case True
    with assms show ?thesis by (auto simp: Reach_def intro: connected.here)
  next
    case False
    with q obtain s where s: "s \<in> set (neighbors c) \<or> s \<in> T"
      and path: "connected (A - {c}) s q"
      unfolding Reach_def by blast
    from path have path': "connected A s q"
      by (rule connected_mono) auto
    from s show ?thesis
    proof
      assume "s \<in> set (neighbors c)"
      then have "connected A c q" by (rule connected.step [OF assms _ path'])
      then show ?thesis by (auto simp: Reach_def)
    next
      assume "s \<in> T"
      with path' show ?thesis by (auto simp: Reach_def)
    qed
  qed
qed

lemma Reach_outside: "c \<notin> A \<Longrightarrow> Reach A (insert c T) = Reach A T"
  by (auto simp: Reach_def dest: connected_source)

lemma Reach_empty [simp]: "Reach A {} = {}"
  by (simp add: Reach_def)

lemma Reach_subset: "Reach A T \<subseteq> A"
  by (auto simp: Reach_def dest: connected_target)

lemma Reach_inter: "Reach A T = Reach A (T \<inter> A)"
  by (auto simp: Reach_def dest: connected_source)

lemma Reach_union: "Reach A (S \<union> T) = Reach A S \<union> Reach A T"
  by (auto simp: Reach_def)

lemma Reach_start: "s \<in> T \<Longrightarrow> s \<in> A \<Longrightarrow> s \<in> Reach A T"
  by (auto simp: Reach_def intro: connected.here)

lemma Reach_closed: "p \<in> Reach A T \<Longrightarrow> connected A p q \<Longrightarrow> q \<in> Reach A T"
  unfolding Reach_def using connected_trans by blast

text \<open>Removing a set closed under paths leaves the paths that end outside of it.\<close>

lemma connected_outside:
  assumes "connected A s q" and "q \<notin> R"
    and closed: "\<And>p r. p \<in> R \<Longrightarrow> connected A p r \<Longrightarrow> r \<in> R"
  shows "connected (A - R) s q"
  using assms(1,2)
proof (induction rule: connected.induct)
  case (here p)
  then show ?case by (auto intro: connected.here)
next
  case (step p q r)
  have "p \<notin> R"
  proof
    assume "p \<in> R"
    moreover have "connected A p r"
      using step.hyps by (rule connected.step)
    ultimately have "r \<in> R" by (rule closed)
    with step.prems show False by simp
  qed
  with step.hyps(1) have "p \<in> A - R" by simp
  moreover have "connected (A - R) q r"
    using step.prems by (rule step.IH)
  ultimately show ?case
    using step.hyps(2) by (blast intro: connected.step)
qed

lemma Reach_after:
  "Reach A S \<union> Reach (A - Reach A S) T = Reach A (S \<union> T)"
proof (intro set_eqI iffI)
  fix q
  assume "q \<in> Reach A S \<union> Reach (A - Reach A S) T"
  then show "q \<in> Reach A (S \<union> T)"
  proof
    assume "q \<in> Reach A S"
    then show ?thesis by (auto simp: Reach_def)
  next
    assume "q \<in> Reach (A - Reach A S) T"
    then obtain s where "s \<in> T" and "connected (A - Reach A S) s q"
      unfolding Reach_def by blast
    from this(2) have "connected A s q"
      by (rule connected_mono) auto
    with \<open>s \<in> T\<close> show ?thesis by (auto simp: Reach_def)
  qed
next
  fix q
  assume q: "q \<in> Reach A (S \<union> T)"
  show "q \<in> Reach A S \<union> Reach (A - Reach A S) T"
  proof (cases "q \<in> Reach A S")
    case True
    then show ?thesis by simp
  next
    case False
    with q obtain s where "s \<in> T" and "connected A s q"
      unfolding Reach_def by blast
    moreover from this(2) False have "connected (A - Reach A S) s q"
    proof (rule connected_outside)
      fix p r
      assume "p \<in> Reach A S" and "connected A p r"
      then show "r \<in> Reach A S" by (rule Reach_closed)
    qed
    ultimately show ?thesis by (auto simp: Reach_def)
  qed
qed


section \<open>Pixels of a buffer\<close>

definition inBounds :: "nat \<Rightarrow> nat \<Rightarrow> coord \<Rightarrow> bool" where
  "inBounds w h p \<longleftrightarrow> (case p of (x, y) \<Rightarrow> 0 \<le> x \<and> x < int w \<and> 0 \<le> y \<and> y < int h)"

definition pixelIndex :: "nat \<Rightarrow> coord \<Rightarrow> int" where
  "pixelIndex w p = (case p of (x, y) \<Rightarrow> y * int w + x)"

definition coordOf :: "nat \<Rightarrow> nat \<Rightarrow> coord" where
  "coordOf w k = (int (k mod w), int (k div w))"

definition colorAt :: "byte \<times> byte \<times> byte \<times> byte \<Rightarrow> nat \<Rightarrow> byte" where
  "colorAt col k = (case col of (c0, c1, c2, c3) \<Rightarrow> [c0, c1, c2, c3] ! k)"

text \<open>The buffer \<open>d\<close> with the pixels of \<open>A\<close> set to one colour.\<close>

definition paint :: "byte \<times> byte \<times> byte \<times> byte \<Rightarrow> nat \<Rightarrow> coord set \<Rightarrow> byte list \<Rightarrow> byte list" where
  "paint col w A d =
     map (\<lambda>j. if coordOf w (j div 4) \<in> A then colorAt col (j mod 4) else d ! j) [0..<length d]"

lemma pixelIndex_nat:
  assumes "inBounds w h p"
  shows "pixelIndex w p = int (nat (snd p) * w + nat (fst p))"
  using assms by (cases p) (simp add: inBounds_def pixelIndex_def)

lemma pixelIndex_less:
  assumes "inBounds w h p"
  shows "nat (pixelIndex w p) < w * h"
proof -
  obtain x y where p: "p = (x, y)" by (cases p)
  from assms p have x: "nat x < w" and y: "nat y < h"
    by (auto simp: inBounds_def)
  from y have le: "Suc (nat y) * w \<le> h * w"
    by (intro mult_le_mono1) simp
  define n where "n = nat y * w + nat x"
  from le x have "n < w * h"
    by (simp add: mult.commute n_def)
  moreover from pixelIndex_nat [OF assms] have "pixelIndex w p = int n"
    by (simp add: p n_def)
  ultimately show ?thesis
    by (simp only: nat_int)
qed

lemma pixelIndex_nonneg: "inBounds w h p \<Longrightarrow> 0 \<le> pixelIndex w p"
  by (simp add: pixelIndex_nat)

lemma coordOf_pixelIndex:
  assumes "inBounds w h p"
  shows "coordOf w (nat (pixelIndex w p)) = p"
proof -
  obtain x y where p: "p = (x, y)" by (cases p)
  from assms p have "nat x < w" "0 \<le> x" "0 \<le> y"
    by (auto simp: inBounds_def)
  moreover define n where "n = nat y * w + nat x"
  moreover from pixelIndex_nat [OF assms] have "pixelIndex w p = int n"
    by (simp add: p n_def)
  then have "nat (pixelIndex w p) = n"
    by (simp only: nat_int)
  ultimately show ?thesis
    by (simp add: p coordOf_def)
qed

lemma inBounds_coordOf:
  assumes "k < w * h"
  shows "inBounds w h (coordOf w k)"
proof -
  from assms have "0 < w" by (cases w) auto
  moreover from assms have "k div w < h"
    by (simp add: less_mult_imp_div_less mult.commute)
  ultimately show ?thesis
    by (simp add: inBounds_def coordOf_def)
qed

lemma pixelIndex_coordOf: "pixelIndex w (coordOf w k) = int k"
proof -
  have "int (k div w) * int w + int (k mod w) = int (k div w * w + k mod w)"
    by (simp only: of_nat_add of_nat_mult)
  also have "\<dots> = int k"
    by (simp only: div_mult_mod_eq)
  finally show ?thesis
    unfolding pixelIndex_def coordOf_def by (simp only: prod.case)
qed

lemma pixelIndex_inj:
  "inBounds w h p \<Longrightarrow> inBounds w h q \<Longrightarrow> pixelIndex w p = pixelIndex w q \<Longrightarrow> p = q"
  by (metis coordOf_pixelIndex)

lemma coordOf_eq_iff:
  assumes "inBounds w h p"
  shows "coordOf w k = p \<longleftrightarrow> k = nat (pixelIndex w p)"
proof
  assume "coordOf w k = p"
  then have "pixelIndex w p = int k"
    by (simp only: pixelIndex_coordOf flip: \<open>coordOf w k = p\<close>)
  then show "k = nat (pixelIndex w p)"
    by (simp only: nat_int)
next
  assume "k = nat (pixelIndex w p)"
  then show "coordOf w k = p"
    by (simp only: coordOf_pixelIndex [OF assms])
qed

lemma length_paint [simp]: "length (paint col w A d) = length d"
  by (simp add: paint_def)

lemma nth_paint:
  "j < length d \<Longrightarrow>
     paint col w A d ! j = (if coordOf w (j div 4) \<in> A then colorAt col (j mod 4) else d ! j)"
  by (simp add: paint_def)

lemma paint_empty [simp]: "paint col w {} d = d"
  by (simp add: paint_def map_nth)

lemma paint_paint: "paint col w A (paint col w B d) = paint col w (A \<union> B) d"
  by (rule nth_equalityI) (auto simp: nth_paint)

lemma paint_cong: "A \<inter> {p. \<exists>k. p = coordOf w k} = B \<inter> {p. \<exists>k. p = coordOf w k} \<Longrightarrow>
    paint col w A d = paint col w B d"
  by (rule nth_equalityI) (auto simp: nth_paint)

lemma nth_setPixelData:
  assumes "4 * k + 3 < length d"
  shows "setPixelData d (int k * 4) col ! j =
     (if j div 4 = k then colorAt col (j mod 4) else d ! j)"
proof -
  obtain c0 c1 c2 c3 where col: "col = (c0, c1, c2, c3)"
    by (cases col) auto
  have w: "wr e (int k * 4 + int m) v = e[4 * k + m := v]" if "length e = length d" "m < 4" for e m v
    using that assms by (simp add: wr_def nat_add_distrib nat_mult_distrib mult.commute)
  have sp: "setPixelData d (int k * 4) col
      = d[4 * k := c0, 4 * k + 1 := c1, 4 * k + 2 := c2, 4 * k + 3 := c3]"
    using w [of d 0 c0] w [of "d[4 * k := c0]" 1 c1] w [of "d[4 * k := c0, 4 * k + 1 := c1]" 2 c2]
      w [of "d[4 * k := c0, 4 * k + 1 := c1, 4 * k + 2 := c2]" 3 c3]
    by (simp add: setPixelData_def col)
  consider "j div 4 \<noteq> k" | m where "m < 4" "j = 4 * k + m"
  proof (cases "j div 4 = k")
    case True
    then have "j = 4 * k + j mod 4" by auto
    moreover have "j mod 4 < 4" by simp
    ultimately show ?thesis using that(2) by blast
  next
    case False
    then show ?thesis by (rule that(1))
  qed
  then show ?thesis
  proof cases
    case 1
    then have "j \<noteq> 4 * k" "j \<noteq> 4 * k + 1" "j \<noteq> 4 * k + 2" "j \<noteq> 4 * k + 3"
      by auto
    with 1 show ?thesis by (simp add: sp [unfolded col] col)
  next
    case 2
    then have "m = 0 \<or> m = 1 \<or> m = 2 \<or> m = 3" by auto
    with 2 assms show ?thesis
      by (auto simp: sp [unfolded col] colorAt_def col)
  qed
qed

lemma setPixelData_paint:
  assumes len: "length d = 4 * (w * h)" and p: "inBounds w h p"
  shows "setPixelData d (pixelIndex w p * 4) col = paint col w {p} d"
proof (rule nth_equalityI)
  show "length (setPixelData d (pixelIndex w p * 4) col) = length (paint col w {p} d)"
    by simp
next
  fix j
  assume "j < length (setPixelData d (pixelIndex w p * 4) col)"
  then have j: "j < length d" by simp
  let ?k = "nat (pixelIndex w p)"
  have k: "pixelIndex w p = int ?k"
    using pixelIndex_nonneg [OF p] by simp
  have "4 * ?k + 3 < length d"
    using pixelIndex_less [OF p] len by simp
  from nth_setPixelData [OF this, of col j]
  have "setPixelData d (pixelIndex w p * 4) col ! j
      = (if j div 4 = ?k then colorAt col (j mod 4) else d ! j)"
    using k by simp
  also have "\<dots> = paint col w {p} d ! j"
    using j by (simp add: nth_paint coordOf_eq_iff [OF p])
  finally show "setPixelData d (pixelIndex w p * 4) col ! j = paint col w {p} d ! j" .
qed

text \<open>Reading channel \<open>m\<close> of an in-bounds pixel.\<close>

lemma rd_pixel:
  assumes len: "length d = 4 * (w * h)" and p: "inBounds w h p" and m: "m < 4"
  shows "rd d (pixelIndex w p * 4 + int m) = Some (d ! (4 * nat (pixelIndex w p) + m))"
proof -
  let ?k = "nat (pixelIndex w p)"
  have k: "pixelIndex w p = int ?k"
    using pixelIndex_nonneg [OF p] by simp
  have "4 * ?k + m < length d"
    using pixelIndex_less [OF p] len m by simp
  moreover have "pixelIndex w p * 4 + int m = int (4 * ?k + m)"
    using k by simp
  ultimately show ?thesis
    unfolding rd_def by (simp del: of_nat_add of_nat_mult)
qed

lemma rd_paint:
  assumes len: "length d = 4 * (w * h)" and p: "inBounds w h p" and m: "m < 4"
  shows "rd (paint col w A d) (pixelIndex w p * 4 + int m) =
     (if p \<in> A then Some (colorAt col m) else rd d (pixelIndex w p * 4 + int m))"
proof -
  let ?k = "nat (pixelIndex w p)"
  have lt: "4 * ?k + m < length d"
    using pixelIndex_less [OF p] len m by simp
  have "(4 * ?k + m) div 4 = ?k" "(4 * ?k + m) mod 4 = m"
    using m by auto
  then have "paint col w A d ! (4 * ?k + m) = (if p \<in> A then colorAt col m else d ! (4 * ?k + m))"
    using lt coordOf_pixelIndex [OF p] by (simp add: nth_paint)
  then show ?thesis
    using rd_pixel [OF _ p m, of "paint col w A d"] rd_pixel [OF len p m] len by simp
qed


section \<open>What a flood fill computes\<close>

text \<open>The pixels the fill may pass: in bounds, with R, G and B all 255.\<close>

definition whiteSet :: "nat \<Rightarrow> nat \<Rightarrow> byte list \<Rightarrow> coord set" where
  "whiteSet w h d = {p. inBounds w h p \<and> isWhite d (pixelIndex w p * 4)}"

lemma isWhite_paint:
  assumes len: "length d = 4 * (w * h)" and p: "inBounds w h p"
  shows "isWhite (paint fillColor w A d) (pixelIndex w p * 4) \<longleftrightarrow>
     p \<notin> A \<and> isWhite d (pixelIndex w p * 4)"
  using rd_paint [OF len p, of 0 fillColor A] rd_paint [OF len p, of 1 fillColor A]
    rd_paint [OF len p, of 2 fillColor A]
  by (auto simp: isWhite_def colorAt_def fillColor_def)

lemma whiteSet_paint:
  assumes "length d = 4 * (w * h)"
  shows "whiteSet w h (paint fillColor w A d) = whiteSet w h d - A"
proof (rule set_eqI)
  fix p
  show "p \<in> whiteSet w h (paint fillColor w A d) \<longleftrightarrow> p \<in> whiteSet w h d - A"
    using isWhite_paint [OF assms, of p A] unfolding whiteSet_def by blast
qed

lemma set_neighbors: "set (neighbors (x, y)) = {(x, y - 1), (x, y + 1), (x - 1, y), (x + 1, y)}"
  by (auto simp: neighbors_def)

lemma floodLoop_paint:
  "length d = 4 * (w * h) \<Longrightarrow>
     floodLoop w h stack d = paint fillColor w (Reach (whiteSet w h d) (set stack)) d"
proof (induction w h stack d rule: floodLoop.induct)
  case (1 w h d)
  then show ?case by simp
next
  case (2 w h x y stack d)
  let ?c = "(x, y)"
  let ?W = "whiteSet w h d"
  show ?case
  proof (cases "x < 0 \<or> int w \<le> x \<or> y < 0 \<or> int h \<le> y")
    case True
    then have "?c \<notin> ?W"
      by (auto simp: whiteSet_def inBounds_def)
    then have "Reach ?W (set (?c # stack)) = Reach ?W (set stack)"
      by (simp add: Reach_outside)
    with True "2.IH"(1) [OF True "2.prems"] show ?thesis
      by simp
  next
    case False
    then have inb: "inBounds w h ?c"
      by (auto simp: inBounds_def)
    have idx: "pixelIndex w ?c = y * int w + x"
      by (simp add: pixelIndex_def)
    show ?thesis
    proof (cases "isWhite d ((y * int w + x) * 4)")
      case True
      let ?d' = "setPixelData d ((y * int w + x) * 4) fillColor"
      let ?st' = "(x, y - 1) # (x, y + 1) # (x - 1, y) # (x + 1, y) # stack"
      have d': "?d' = paint fillColor w {?c} d"
        using setPixelData_paint [OF "2.prems" inb, of fillColor] by (simp add: idx)
      have len': "length ?d' = 4 * (w * h)"
        using "2.prems" by simp
      have W': "whiteSet w h ?d' = ?W - {?c}"
        unfolding d' by (rule whiteSet_paint [OF "2.prems"])
      have cW: "?c \<in> ?W"
        using True inb by (simp add: whiteSet_def idx)
      have st': "set ?st' = set (neighbors ?c) \<union> set stack"
        by (auto simp: set_neighbors)
      have "floodLoop w h (?c # stack) d = floodLoop w h ?st' ?d'"
        using False True by simp
      also have "\<dots> = paint fillColor w (Reach (whiteSet w h ?d') (set ?st')) ?d'"
        using False True len' by (rule "2.IH"(2))
      also have "\<dots> = paint fillColor w (Reach (?W - {?c}) (set (neighbors ?c) \<union> set stack)) ?d'"
        by (simp only: W' st')
      also have "\<dots> = paint fillColor w
           (Reach (?W - {?c}) (set (neighbors ?c) \<union> set stack) \<union> {?c}) d"
        unfolding d' by (rule paint_paint)
      also have "Reach (?W - {?c}) (set (neighbors ?c) \<union> set stack) \<union> {?c}
          = Reach ?W (set (?c # stack))"
        using Reach_pop [OF cW, of "set stack"] by simp
      finally show ?thesis .
    next
      case white: False
      then have "?c \<notin> ?W"
        by (simp add: whiteSet_def idx)
      then have "Reach ?W (set (?c # stack)) = Reach ?W (set stack)"
        by (simp add: Reach_outside)
      with False white "2.IH"(3) [OF False white "2.prems"] show ?thesis
        by simp
    qed
  qed
qed

lemma floodFill_after:
  assumes len: "length d0 = 4 * (width img * height img)"
    and img: "data img = paint fillColor (width img) (Reach (whiteSet (width img) (height img) d0) S) d0"
  shows "floodFill img sx sy =
     img\<lparr>data := paint fillColor (width img)
        (Reach (whiteSet (width img) (height img) d0) (S \<union> {(sx, sy)})) d0\<rparr>"
proof -
  let ?w = "width img" and ?h = "height img"
  let ?W0 = "whiteSet ?w ?h d0"
  let ?R = "Reach ?W0 S"
  let ?s = "(sx, sy)"
  have len1: "length (data img) = 4 * (?w * ?h)"
    using len img by simp
  have W1: "whiteSet ?w ?h (data img) = ?W0 - ?R"
    unfolding img by (rule whiteSet_paint [OF len])
  have total: "paint fillColor ?w (Reach (?W0 - ?R) {?s}) (data img)
      = paint fillColor ?w (Reach ?W0 (S \<union> {?s})) d0"
  proof -
    have "paint fillColor ?w (Reach (?W0 - ?R) {?s}) (data img)
        = paint fillColor ?w (Reach (?W0 - ?R) {?s} \<union> ?R) d0"
      by (subst img) (rule paint_paint)
    also have "Reach (?W0 - ?R) {?s} \<union> ?R = Reach ?W0 (S \<union> {?s})"
      using Reach_after [of ?W0 S "{?s}"] by (simp add: Un_commute)
    finally show ?thesis .
  qed
  show ?thesis
  proof (cases "rd (data img) ((sy * int ?w + sx) * 4) = Some 0 \<or>
      (rd (data img) ((sy * int ?w + sx) * 4) = Some 255 \<and>
       rd (data img) ((sy * int ?w + sx) * 4 + 1) = Some 0)")
    case True
    then have "\<not> isWhite (data img) (pixelIndex ?w ?s * 4)"
      by (auto simp: isWhite_def pixelIndex_def)
    then have "?s \<notin> whiteSet ?w ?h (data img)"
      by (simp add: whiteSet_def)
    then have "Reach (?W0 - ?R) {?s} = {}"
      unfolding W1 [symmetric] using Reach_outside [of ?s _ "{}"] by simp
    with total have e: "paint fillColor ?w (Reach ?W0 (S \<union> {?s})) d0 = data img"
      by simp
    have f: "floodFill img sx sy = img"
      unfolding floodFill_def Let_def by (simp only: if_P [OF True])
    show ?thesis
      unfolding e f by simp
  next
    case False
    have "floodFill img sx sy = img\<lparr>data := floodLoop ?w ?h [?s] (data img)\<rparr>"
      unfolding floodFill_def Let_def by (simp only: if_not_P [OF False])
    also have "floodLoop ?w ?h [?s] (data img)
        = paint fillColor ?w (Reach (?W0 - ?R) {?s}) (data img)"
      using floodLoop_paint [OF len1, of "[?s]"] by (simp add: W1)
    finally show ?thesis
      by (simp only: total)
  qed
qed

lemma floodFill_paint:
  assumes "wellFormed img"
  shows "floodFill img sx sy =
     img\<lparr>data := paint fillColor (width img)
        (Reach (whiteSet (width img) (height img) (data img)) {(sx, sy)}) (data img)\<rparr>"
  using floodFill_after [of "data img" img "{}" sx sy] assms
  by (simp add: wellFormed_def)


section \<open>What the labeler computes\<close>

text \<open>The STROKE pixels of a mask, as the labeler tests them: in bounds, with R = 0.\<close>

definition strokeSet :: "nat \<Rightarrow> nat \<Rightarrow> byte list \<Rightarrow> coord set" where
  "strokeSet w h d = {p. inBounds w h p \<and> rd d (pixelIndex w p * 4) = Some 0}"

definition unvisited :: "nat \<Rightarrow> nat \<Rightarrow> byte list \<Rightarrow> coord set" where
  "unvisited w h v = {p. inBounds w h p \<and> rd v (pixelIndex w p) = Some 0}"

lemma unvisited_mark:
  assumes len: "length v = w * h" and p: "inBounds w h p"
  shows "unvisited w h (wr v (pixelIndex w p) 1) = unvisited w h v - {p}"
proof (rule set_eqI)
  fix q
  show "q \<in> unvisited w h (wr v (pixelIndex w p) 1) \<longleftrightarrow> q \<in> unvisited w h v - {p}"
  proof (cases "q = p")
    case True
    have "rd (wr v (pixelIndex w p) 1) (pixelIndex w p) \<noteq> Some 0"
      by (simp add: rd_wr_same)
    with True show ?thesis
      by (simp add: unvisited_def)
  next
    case False
    show ?thesis
    proof (cases "inBounds w h q")
      case True
      with False p have "pixelIndex w p \<noteq> pixelIndex w q"
        using pixelIndex_inj [of w h p q] by auto
      then have "rd (wr v (pixelIndex w p) 1) (pixelIndex w q) = rd v (pixelIndex w q)"
        by (rule rd_wr_other)
      with False show ?thesis
        by (simp add: unvisited_def)
    next
      case False
      then show ?thesis
        by (simp add: unvisited_def)
    qed
  qed
qed

lemma visitNeighbor_eq:
  "visitNeighbor w h d n (v, st) =
     (if n \<in> strokeSet w h d \<inter> unvisited w h v
      then (wr v (pixelIndex w n) 1, n # st) else (v, st))"
  by (cases n) (auto simp: visitNeighbor_def strokeSet_def unvisited_def inBounds_def
      pixelIndex_def Let_def)

lemma fold_visitNeighbor:
  "fold (visitNeighbor w h d) ns (v, st) = (v', st') \<Longrightarrow> length v = w * h \<Longrightarrow>
     length v' = w * h \<and>
     unvisited w h v' = unvisited w h v - (set ns \<inter> strokeSet w h d) \<and>
     set st' = set st \<union> (set ns \<inter> strokeSet w h d \<inter> unvisited w h v) \<and>
     (distinct st \<and> set st \<inter> unvisited w h v = {} \<longrightarrow>
        distinct st' \<and> set st' \<inter> unvisited w h v' = {})"
proof (induction ns arbitrary: v st)
  case Nil
  then show ?case by auto
next
  case (Cons n ns)
  let ?S = "strokeSet w h d"
  define v1 where "v1 = (if n \<in> ?S \<inter> unvisited w h v then wr v (pixelIndex w n) 1 else v)"
  define st1 where "st1 = (if n \<in> ?S \<inter> unvisited w h v then n # st else st)"
  have "visitNeighbor w h d n (v, st) = (v1, st1)"
    by (simp add: visitNeighbor_eq v1_def st1_def)
  with Cons.prems(1) have run1: "fold (visitNeighbor w h d) ns (v1, st1) = (v', st')"
    by simp
  have len1: "length v1 = w * h"
    using Cons.prems(2) by (simp add: v1_def)
  have un1: "unvisited w h v1 = unvisited w h v - ({n} \<inter> ?S)"
  proof (cases "n \<in> ?S \<inter> unvisited w h v")
    case True
    then have "inBounds w h n" by (simp add: strokeSet_def)
    from unvisited_mark [OF Cons.prems(2) this] True show ?thesis
      by (simp add: v1_def)
  next
    case False
    then show ?thesis by (auto simp: v1_def)
  qed
  have st1: "set st1 = set st \<union> ({n} \<inter> ?S \<inter> unvisited w h v)"
    by (auto simp: st1_def)
  have d1: "distinct st1 \<and> set st1 \<inter> unvisited w h v1 = {}"
    if "distinct st \<and> set st \<inter> unvisited w h v = {}"
    using that un1 by (auto simp: st1_def)
  from Cons.IH [OF run1 len1] have
    ih1: "length v' = w * h" and
    ih2: "unvisited w h v' = unvisited w h v1 - (set ns \<inter> ?S)" and
    ih3: "set st' = set st1 \<union> (set ns \<inter> ?S \<inter> unvisited w h v1)" and
    ih4: "distinct st1 \<and> set st1 \<inter> unvisited w h v1 = {} \<longrightarrow>
        distinct st' \<and> set st' \<inter> unvisited w h v' = {}"
    by blast+
  have "unvisited w h v' = unvisited w h v - (set (n # ns) \<inter> ?S)"
    unfolding ih2 un1 by auto
  moreover have "set st' = set st \<union> (set (n # ns) \<inter> ?S \<inter> unvisited w h v)"
    unfolding ih3 st1 un1 by auto
  moreover have "distinct st \<and> set st \<inter> unvisited w h v = {} \<longrightarrow>
        distinct st' \<and> set st' \<inter> unvisited w h v' = {}"
    using d1 ih4 by blast
  ultimately show ?case
    using ih1 by blast
qed

lemma pixels_addPixel [simp]: "pixels (addPixel cmp c) = pixels cmp @ [c]"
  by (cases c) (simp add: addPixel_def)

text \<open>
  One run of the inner loop collects what can be reached from the stack through stroke
  pixels that are not visited yet, and marks exactly that.
\<close>

lemma labelLoop_spec:
  "labelLoop w h d st v cmp = (v', cmp') \<Longrightarrow> length v = w * h \<Longrightarrow>
   set st \<subseteq> strokeSet w h d \<Longrightarrow> set st \<inter> unvisited w h v = {} \<Longrightarrow> distinct st \<Longrightarrow>
   set (pixels cmp) \<inter> (strokeSet w h d \<inter> unvisited w h v \<union> set st) = {} \<Longrightarrow>
   distinct (pixels cmp) \<Longrightarrow>
     length v' = w * h \<and>
     unvisited w h v' =
       unvisited w h v - Reach (strokeSet w h d \<inter> unvisited w h v \<union> set st) (set st) \<and>
     set (pixels cmp') =
       set (pixels cmp) \<union> Reach (strokeSet w h d \<inter> unvisited w h v \<union> set st) (set st) \<and>
     distinct (pixels cmp')"
proof (induction w h d st v cmp arbitrary: v' cmp' rule: labelLoop.induct)
  case (1 w h d visited cmp)
  then show ?case by simp
next
  case (2 w h d c stack visited cmp)
  let ?S = "strokeSet w h d"
  let ?U = "?S \<inter> unvisited w h visited"
  let ?A = "?U \<union> set (c # stack)"
  obtain v1 st1 where f: "fold (visitNeighbor w h d) (neighbors c) (visited, stack) = (v1, st1)"
    by (cases "fold (visitNeighbor w h d) (neighbors c) (visited, stack)")
  let ?N = "set (neighbors c) \<inter> ?U"
  let ?A1 = "?S \<inter> unvisited w h v1 \<union> set st1"
  let ?R1 = "Reach ?A1 (set st1)"
  note len = "2.prems"(2)
  from "2.prems"(3) have cS: "c \<in> ?S" and stS: "set stack \<subseteq> ?S" by auto
  from "2.prems"(4) have cV: "c \<notin> unvisited w h visited"
    and stV: "set stack \<inter> unvisited w h visited = {}" by auto
  from "2.prems"(5) have cst: "c \<notin> set stack" and dst: "distinct stack" by auto
  from fold_visitNeighbor [OF f len] dst stV have
    len1: "length v1 = w * h" and
    un1: "unvisited w h v1 = unvisited w h visited - (set (neighbors c) \<inter> ?S)" and
    st1: "set st1 = set stack \<union> ?N" and
    dst1: "distinct st1" and
    stV1: "set st1 \<inter> unvisited w h v1 = {}"
    by blast+
  have A1: "?A1 = ?A - {c}"
    unfolding un1 st1 using cV cst by auto
  have cA: "c \<in> ?A" by simp
  have "Reach ?A1 (set (neighbors c) \<union> set stack) = Reach ?A1 ((set (neighbors c) \<union> set stack) \<inter> ?A1)"
    by (rule Reach_inter)
  also have "(set (neighbors c) \<union> set stack) \<inter> ?A1 = set st1 \<inter> ?A1"
    unfolding un1 st1 by auto
  also have "Reach ?A1 (set st1 \<inter> ?A1) = ?R1"
    by (rule Reach_inter [symmetric])
  finally have "Reach ?A (insert c (set stack)) = insert c ?R1"
    using Reach_pop [OF cA, of "set stack"] by (simp only: A1)
  then have R: "Reach ?A (set (c # stack)) = insert c ?R1"
    by simp
  have run: "labelLoop w h d st1 v1 (addPixel cmp c) = (v', cmp')"
    using "2.prems"(1) f by simp
  have p1: "set st1 \<subseteq> ?S"
    unfolding st1 using stS by auto
  have p2: "set (pixels (addPixel cmp c)) \<inter> ?A1 = {}"
    unfolding A1 using "2.prems"(6) by auto
  have p3: "distinct (pixels (addPixel cmp c))"
    using "2.prems"(6,7) by auto
  from "2.IH" [OF f [symmetric] run len1 p1 stV1 dst1 p2 p3] have
    r1: "length v' = w * h" and
    r2: "unvisited w h v' = unvisited w h v1 - ?R1" and
    r3: "set (pixels cmp') = set (pixels (addPixel cmp c)) \<union> ?R1" and
    r4: "distinct (pixels cmp')"
    by blast+
  have "?N \<subseteq> ?R1"
  proof
    fix n assume n: "n \<in> ?N"
    then have "n \<in> set st1" by (simp add: st1)
    moreover then have "n \<in> ?A1" by simp
    ultimately show "n \<in> ?R1" by (rule Reach_start)
  qed
  then have "unvisited w h v' = unvisited w h visited - insert c ?R1"
    unfolding r2 un1 using cV by auto
  moreover have "set (pixels cmp') = set (pixels cmp) \<union> insert c ?R1"
    unfolding r3 by simp
  ultimately show ?case
    using r1 r4 by (simp only: R) 
qed

subsection \<open>Bounding boxes\<close>

definition emptyBox :: "nat \<Rightarrow> nat \<Rightarrow> Component \<Rightarrow> bool" where
  "emptyBox w h cmp \<longleftrightarrow>
     pixels cmp = [] \<and> minX cmp = int w \<and> minY cmp = int h \<and> maxX cmp = - 1 \<and> maxY cmp = - 1"

definition tightBox :: "Component \<Rightarrow> bool" where
  "tightBox cmp \<longleftrightarrow>
     pixels cmp \<noteq> [] \<and>
     minX cmp = Min (fst ` set (pixels cmp)) \<and> minY cmp = Min (snd ` set (pixels cmp)) \<and>
     maxX cmp = Max (fst ` set (pixels cmp)) \<and> maxY cmp = Max (snd ` set (pixels cmp))"

lemma addPixel_first:
  assumes "emptyBox w h cmp" and "inBounds w h c"
  shows "tightBox (addPixel cmp c)"
  using assms by (cases c) (auto simp: emptyBox_def inBounds_def tightBox_def addPixel_def)

lemma addPixel_next:
  assumes "tightBox cmp"
  shows "tightBox (addPixel cmp c)"
proof -
  obtain cx cy where c: "c = (cx, cy)" by (cases c)
  let ?xs = "fst ` set (pixels cmp)" and ?ys = "snd ` set (pixels cmp)"
  from assms have ne: "?xs \<noteq> {}" "?ys \<noteq> {}" and fin: "finite ?xs" "finite ?ys"
    by (auto simp: tightBox_def)
  have e: "Min (insert cx ?xs) = min cx (Min ?xs)" "Max (insert cx ?xs) = max cx (Max ?xs)"
    "Min (insert cy ?ys) = min cy (Min ?ys)" "Max (insert cy ?ys) = max cy (Max ?ys)"
    using ne fin by simp_all
  from assms have t: "minX cmp = Min ?xs" "minY cmp = Min ?ys" "maxX cmp = Max ?xs"
    "maxY cmp = Max ?ys"
    by (simp_all add: tightBox_def)
  have px: "fst ` set (pixels (addPixel cmp c)) = insert cx ?xs"
    "snd ` set (pixels (addPixel cmp c)) = insert cy ?ys"
    by (simp_all add: c)
  show ?thesis
    unfolding tightBox_def px e t [symmetric]
    by (simp add: addPixel_def c min_def max_def)
qed

lemma fold_visitNeighbor_inBounds:
  "fold (visitNeighbor w h d) ns (v, st) = (v', st') \<Longrightarrow>
     \<forall>p\<in>set st. inBounds w h p \<Longrightarrow> \<forall>p\<in>set st'. inBounds w h p"
proof (induction ns arbitrary: v st)
  case Nil
  then show ?case by simp
next
  case (Cons n ns)
  show ?case
  proof (cases "n \<in> strokeSet w h d \<inter> unvisited w h v")
    case True
    have "visitNeighbor w h d n (v, st) = (wr v (pixelIndex w n) 1, n # st)"
      by (simp only: visitNeighbor_eq True if_True)
    with Cons.prems(1) have "fold (visitNeighbor w h d) ns (wr v (pixelIndex w n) 1, n # st) = (v', st')"
      by simp
    moreover from True Cons.prems(2) have "\<forall>p\<in>set (n # st). inBounds w h p"
      by (simp add: strokeSet_def)
    ultimately show ?thesis by (rule Cons.IH)
  next
    case False
    have "visitNeighbor w h d n (v, st) = (v, st)"
      by (simp only: visitNeighbor_eq False if_False)
    with Cons.prems(1) have "fold (visitNeighbor w h d) ns (v, st) = (v', st')"
      by simp
    then show ?thesis using Cons.prems(2) by (rule Cons.IH)
  qed
qed

lemma labelLoop_tight:
  "labelLoop w h d st v cmp = (v', cmp') \<Longrightarrow> \<forall>p\<in>set st. inBounds w h p \<Longrightarrow>
   tightBox cmp \<or> (st \<noteq> [] \<and> emptyBox w h cmp) \<Longrightarrow> tightBox cmp'"
proof (induction w h d st v cmp arbitrary: v' cmp' rule: labelLoop.induct)
  case (1 w h d visited cmp)
  then show ?case by simp
next
  case (2 w h d c stack visited cmp)
  obtain v1 st1 where f: "fold (visitNeighbor w h d) (neighbors c) (visited, stack) = (v1, st1)"
    by (cases "fold (visitNeighbor w h d) (neighbors c) (visited, stack)")
  have run: "labelLoop w h d st1 v1 (addPixel cmp c) = (v', cmp')"
    using "2.prems"(1) f by simp
  from "2.prems"(2) have "\<forall>p\<in>set stack. inBounds w h p" by simp
  with f have inb1: "\<forall>p\<in>set st1. inBounds w h p"
    by (rule fold_visitNeighbor_inBounds)
  from "2.prems"(2,3) have "tightBox (addPixel cmp c)"
    by (auto intro: addPixel_first addPixel_next)
  then have "tightBox (addPixel cmp c) \<or> (st1 \<noteq> [] \<and> emptyBox w h (addPixel cmp c))"
    by simp
  with f [symmetric] run inb1 show ?case
    by (rule "2.IH")
qed

subsection \<open>The scan over all pixels\<close>

text \<open>
  \<open>isClass S C\<close>: \<open>C\<close> is a maximal 4-connected group of pixels of \<open>S\<close>: it is not
  empty, and from each of its pixels the pixels of \<open>S\<close> that a path in \<open>S\<close> reaches are
  exactly those of \<open>C\<close>.
\<close>

definition isClass :: "coord set \<Rightarrow> coord set \<Rightarrow> bool" where
  "isClass S C \<longleftrightarrow> C \<noteq> {} \<and> (\<forall>p\<in>C. C = {q. connected S p q})"

definition labelInv :: "nat \<Rightarrow> nat \<Rightarrow> byte list \<Rightarrow> byte list \<times> Component list \<Rightarrow> bool" where
  "labelInv w h d s \<longleftrightarrow> (case s of (v, comps) \<Rightarrow>
     length v = w * h \<and>
     unvisited w h v = {p. inBounds w h p} - (\<Union>c\<in>set comps. set (pixels c)) \<and>
     distinct (concat (map pixels comps)) \<and>
     (\<forall>c\<in>set comps. tightBox c \<and> isClass (strokeSet w h d) (set (pixels c))))"

lemma isClass_connected:
  assumes "p \<in> S"
  shows "isClass S {q. connected S p q}"
proof -
  have "connected S p p" using assms by (rule connected.here)
  moreover have "{q. connected S p q} = {r. connected S q r}" if "connected S p q" for q
    using that by (auto intro: connected_trans connected_sym)
  ultimately show ?thesis
    unfolding isClass_def by blast
qed

lemma isClass_subset: "isClass S C \<Longrightarrow> C \<subseteq> S"
  unfolding isClass_def using connected_target by blast

lemma isClass_closed: "isClass S C \<Longrightarrow> p \<in> C \<Longrightarrow> connected S p q \<Longrightarrow> q \<in> C"
  unfolding isClass_def by blast

lemma strokeSet_inBounds: "p \<in> strokeSet w h d \<Longrightarrow> inBounds w h p"
  by (simp add: strokeSet_def)

lemma scanPixel_eq:
  "scanPixel img y x (v, comps) =
     (if rd (data img) (pixelIndex (width img) (x, y) * 4) = Some 0 \<and>
         rd v (pixelIndex (width img) (x, y)) = Some 0
      then (case labelLoop (width img) (height img) (data img) [(x, y)]
                  (wr v (pixelIndex (width img) (x, y)) 1)
                  \<lparr>pixels = [], minX = int (width img), minY = int (height img),
                   maxX = - 1, maxY = - 1\<rparr> of
              (v', cmp) \<Rightarrow> (v', comps @ [cmp]))
      else (v, comps))"
  by (simp add: scanPixel_def Let_def pixelIndex_def)

lemma scanPixel_step:
  assumes inv: "labelInv (width img) (height img) (data img) (v, comps)"
    and p: "inBounds (width img) (height img) (x, y)"
  shows "\<exists>v' comps'. scanPixel img y x (v, comps) = (v', comps') \<and>
     labelInv (width img) (height img) (data img) (v', comps') \<and>
     unvisited (width img) (height img) v' \<subseteq> unvisited (width img) (height img) v \<and>
     (x, y) \<notin> strokeSet (width img) (height img) (data img) \<inter> unvisited (width img) (height img) v'"
proof -
  let ?w = "width img" and ?h = "height img" and ?d = "data img"
  let ?p = "(x, y)"
  let ?S = "strokeSet ?w ?h ?d"
  let ?P = "\<Union>c\<in>set comps. set (pixels c)"
  from inv have len: "length v = ?w * ?h"
    and un: "unvisited ?w ?h v = {p. inBounds ?w ?h p} - ?P"
    and dis: "distinct (concat (map pixels comps))"
    and cls: "\<forall>c\<in>set comps. tightBox c \<and> isClass ?S (set (pixels c))"
    by (simp_all add: labelInv_def)
  have cond: "rd ?d (pixelIndex ?w ?p * 4) = Some 0 \<and> rd v (pixelIndex ?w ?p) = Some 0
      \<longleftrightarrow> ?p \<in> ?S \<inter> unvisited ?w ?h v"
    using p by (simp add: strokeSet_def unvisited_def)
  show ?thesis
  proof (cases "?p \<in> ?S \<inter> unvisited ?w ?h v")
    case False
    then have "scanPixel img y x (v, comps) = (v, comps)"
      using cond by (simp only: scanPixel_eq if_False)
    with inv False show ?thesis by simp
  next
    case True
    let ?v0 = "wr v (pixelIndex ?w ?p) 1"
    let ?c0 = "\<lparr>pixels = [], minX = int ?w, minY = int ?h, maxX = - 1, maxY = - 1\<rparr>"
    obtain v' cmp' where run: "labelLoop ?w ?h ?d [?p] ?v0 ?c0 = (v', cmp')"
      by (cases "labelLoop ?w ?h ?d [?p] ?v0 ?c0")
    have res: "scanPixel img y x (v, comps) = (v', comps @ [cmp'])"
      using True cond run by (simp only: scanPixel_eq if_True prod.case)
    have len0: "length ?v0 = ?w * ?h" using len by simp
    have un0: "unvisited ?w ?h ?v0 = unvisited ?w ?h v - {?p}"
      using len p by (rule unvisited_mark)
    let ?U = "?S \<inter> unvisited ?w ?h v"
    have A: "?S \<inter> unvisited ?w ?h ?v0 \<union> set [?p] = ?U"
      unfolding un0 using True by auto
    have "set [?p] \<subseteq> ?S" "set [?p] \<inter> unvisited ?w ?h ?v0 = {}" "distinct [?p]"
      "set (pixels ?c0) \<inter> (?S \<inter> unvisited ?w ?h ?v0 \<union> set [?p]) = {}" "distinct (pixels ?c0)"
      using True un0 by auto
    from labelLoop_spec [OF run len0 this] have
      len': "length v' = ?w * ?h" and
      un': "unvisited ?w ?h v' = unvisited ?w ?h ?v0 - Reach ?U {?p}" and
      px': "set (pixels cmp') = Reach ?U {?p}" and
      dis': "distinct (pixels cmp')"
      unfolding A by simp_all
    have SU: "?U = ?S - ?P"
      unfolding un using strokeSet_inBounds by auto
    have closedP: "r \<in> ?P" if "q \<in> ?P" "connected ?S q r" for q r
    proof -
      from that(1) obtain c where c: "c \<in> set comps" "q \<in> set (pixels c)"
        by auto
      with cls have "isClass ?S (set (pixels c))"
        by simp
      from isClass_closed [OF this c(2) that(2)] c(1) show ?thesis
        by auto
    qed
    have pP: "?p \<notin> ?P"
      using True un by auto
    have R: "Reach ?U {?p} = {q. connected ?S ?p q}"
    proof (intro set_eqI iffI)
      fix q assume "q \<in> Reach ?U {?p}"
      then have "connected ?U ?p q" by (simp add: Reach_def)
      then have "connected ?S ?p q" by (rule connected_mono) simp
      then show "q \<in> {q. connected ?S ?p q}" by simp
    next
      fix q assume "q \<in> {q. connected ?S ?p q}"
      then have c: "connected ?S ?p q" by simp
      have "q \<notin> ?P"
      proof
        assume "q \<in> ?P"
        moreover have "connected ?S q ?p" using c by (rule connected_sym)
        ultimately have "?p \<in> ?P" by (rule closedP)
        with pP show False ..
      qed
      with c have "connected (?S - ?P) ?p q"
        by (rule connected_outside) (rule closedP)
      then show "q \<in> Reach ?U {?p}"
        by (simp add: Reach_def SU)
    qed
    have pS: "?p \<in> ?S" using True by simp
    have cls': "isClass ?S (set (pixels cmp'))"
      unfolding px' R using pS by (rule isClass_connected)
    have pR: "?p \<in> Reach ?U {?p}"
      unfolding R using pS by (simp add: connected.here)
    have tight': "tightBox cmp'"
      using run by (rule labelLoop_tight) (use p in \<open>simp_all add: emptyBox_def\<close>)
    define R where "R = Reach ?U {?p}"
    define Uv where "Uv = unvisited ?w ?h v"
    define Uv' where "Uv' = unvisited ?w ?h v'"
    define I where "I = {p. inBounds ?w ?h p}"
    have RU: "R \<subseteq> Uv" unfolding R_def Uv_def using Reach_subset [of ?U "{?p}"] by blast
    have e1: "Uv' = Uv - {?p} - R" unfolding Uv'_def Uv_def R_def un' un0 ..
    have e2: "Uv = I - ?P" unfolding Uv_def I_def by (rule un)
    have e3: "?p \<in> R" unfolding R_def by (rule pR)
    have e4: "set (pixels cmp') = R" unfolding R_def by (rule px')
    have "Uv' = I - (\<Union>c\<in>set (comps @ [cmp']). set (pixels c))"
      using e1 e2 e3 e4 by auto
    then have un'': "unvisited ?w ?h v' = {p. inBounds ?w ?h p} - (\<Union>c\<in>set (comps @ [cmp']). set (pixels c))"
      unfolding Uv'_def I_def .
    have "R \<inter> ?P = {}" using RU e2 by auto
    then have dis'': "distinct (concat (map pixels (comps @ [cmp'])))"
      using dis dis' e4 by auto
    have "labelInv ?w ?h ?d (v', comps @ [cmp'])"
      unfolding labelInv_def using len' un'' dis'' cls cls' tight' by simp
    moreover have "Uv' \<subseteq> Uv"
      using e1 by auto
    then have "unvisited ?w ?h v' \<subseteq> unvisited ?w ?h v"
      unfolding Uv'_def Uv_def .
    moreover have "?p \<notin> Uv'"
      using e1 by auto
    then have "?p \<notin> ?S \<inter> unvisited ?w ?h v'"
      unfolding Uv'_def by simp
    ultimately show ?thesis
      using res by blast
  qed
qed

text \<open>
  \<open>scanned img P s s'\<close>: from state \<open>s\<close> the scan has come to \<open>s'\<close>, which keeps the
  invariant, has unvisited nothing that was visited, and has no unvisited stroke pixel
  left in \<open>P\<close>.
\<close>

definition scanned ::
  "ImageData \<Rightarrow> coord set \<Rightarrow> byte list \<times> Component list \<Rightarrow> byte list \<times> Component list \<Rightarrow> bool" where
  "scanned img P s s' \<longleftrightarrow>
     labelInv (width img) (height img) (data img) s' \<and>
     unvisited (width img) (height img) (fst s') \<subseteq> unvisited (width img) (height img) (fst s) \<and>
     P \<inter> strokeSet (width img) (height img) (data img)
       \<inter> unvisited (width img) (height img) (fst s') = {}"

lemma scanned_refl: "labelInv (width img) (height img) (data img) s \<Longrightarrow> scanned img {} s s"
  by (simp add: scanned_def)

lemma scanned_trans: "scanned img P s s' \<Longrightarrow> scanned img Q s' s'' \<Longrightarrow> scanned img (P \<union> Q) s s''"
  unfolding scanned_def by blast

lemma scanned_inv: "scanned img P s s' \<Longrightarrow> labelInv (width img) (height img) (data img) s'"
  by (simp add: scanned_def)

lemma scanned_step:
  assumes "labelInv (width img) (height img) (data img) s"
    and "inBounds (width img) (height img) (x, y)"
  shows "scanned img {(x, y)} s (scanPixel img y x s)"
proof -
  obtain v comps where s: "s = (v, comps)" by (cases s)
  from scanPixel_step [OF assms(1) [unfolded s] assms(2)] show ?thesis
    unfolding scanned_def s by auto
qed

lemma fold_row:
  assumes "labelInv (width img) (height img) (data img) s"
    and "\<forall>x\<in>set xs. x < width img" and "y < height img"
  shows "scanned img ((\<lambda>x. (int x, int y)) ` set xs) s
     (fold (\<lambda>x. scanPixel img (int y) (int x)) xs s)"
  using assms(1,2)
proof (induction xs arbitrary: s)
  case Nil
  then show ?case by (simp add: scanned_refl)
next
  case (Cons x xs)
  from Cons.prems(2) assms(3) have "inBounds (width img) (height img) (int x, int y)"
    by (simp add: inBounds_def)
  with Cons.prems(1) have 1: "scanned img {(int x, int y)} s (scanPixel img (int y) (int x) s)"
    by (rule scanned_step)
  from Cons.prems(2) have "\<forall>x\<in>set xs. x < width img" by simp
  with scanned_inv [OF 1]
  have "scanned img ((\<lambda>x. (int x, int y)) ` set xs) (scanPixel img (int y) (int x) s)
     (fold (\<lambda>x. scanPixel img (int y) (int x)) xs (scanPixel img (int y) (int x) s))"
    by (rule Cons.IH)
  with 1 have "scanned img ({(int x, int y)} \<union> (\<lambda>x. (int x, int y)) ` set xs) s
     (fold (\<lambda>x. scanPixel img (int y) (int x)) xs (scanPixel img (int y) (int x) s))"
    by (rule scanned_trans)
  then show ?case by simp
qed

lemma fold_rows:
  assumes "labelInv (width img) (height img) (data img) s"
    and "\<forall>y\<in>set ys. y < height img"
  shows "scanned img {(int x, int y) | x y. x < width img \<and> y \<in> set ys} s
     (fold (\<lambda>y. fold (\<lambda>x. scanPixel img (int y) (int x)) [0..<width img]) ys s)"
  using assms
proof (induction ys arbitrary: s)
  case Nil
  then show ?case by (simp add: scanned_refl)
next
  case (Cons y ys)
  let ?row = "fold (\<lambda>x. scanPixel img (int y) (int x)) [0..<width img]"
  from Cons.prems have 1: "scanned img ((\<lambda>x. (int x, int y)) ` set [0..<width img]) s (?row s)"
    by (intro fold_row) simp_all
  from Cons.prems(2) have "\<forall>y\<in>set ys. y < height img" by simp
  with scanned_inv [OF 1]
  have "scanned img {(int x, int y) | x y. x < width img \<and> y \<in> set ys} (?row s)
     (fold (\<lambda>y. fold (\<lambda>x. scanPixel img (int y) (int x)) [0..<width img]) ys (?row s))"
    by (rule Cons.IH)
  with 1 have "scanned img ((\<lambda>x. (int x, int y)) ` set [0..<width img] \<union>
       {(int x, int y) | x y. x < width img \<and> y \<in> set ys}) s
     (fold (\<lambda>y. fold (\<lambda>x. scanPixel img (int y) (int x)) [0..<width img]) ys (?row s))"
    by (rule scanned_trans)
  moreover have "(\<lambda>x. (int x, int y)) ` set [0..<width img] \<union>
       {(int x, int y) | x y. x < width img \<and> y \<in> set ys}
     = {(int x, int y') | x y'. x < width img \<and> y' \<in> set (y # ys)}"
    by auto
  ultimately show ?case by simp
qed

lemma labelInv_start: "labelInv w h d (replicate (w * h) 0, [])"
proof -
  have "rd (replicate (w * h) 0) (pixelIndex w p) = Some 0" if "inBounds w h p" for p
    using pixelIndex_nonneg [OF that] pixelIndex_less [OF that] by (simp add: rd_def nat_less_iff)
  then have "unvisited w h (replicate (w * h) 0) = {p. inBounds w h p}"
    by (auto simp: unvisited_def)
  then show ?thesis
    by (simp add: labelInv_def)
qed

lemma labelComponents_correct:
  "distinct (concat (map pixels (labelComponents img))) \<and>
   (\<Union>c\<in>set (labelComponents img). set (pixels c)) =
      strokeSet (width img) (height img) (data img) \<and>
   (\<forall>c\<in>set (labelComponents img).
      tightBox c \<and> isClass (strokeSet (width img) (height img) (data img)) (set (pixels c)))"
proof -
  let ?w = "width img" and ?h = "height img" and ?d = "data img"
  let ?S = "strokeSet ?w ?h ?d"
  let ?s0 = "(replicate (?w * ?h) (0 :: byte), [] :: Component list)"
  define s' where "s' = fold (\<lambda>y. fold (\<lambda>x. scanPixel img (int y) (int x)) [0..<?w]) [0..<?h] ?s0"
  have comps: "labelComponents img = snd s'"
    by (simp add: labelComponents_def s'_def)
  have "scanned img {(int x, int y) | x y. x < ?w \<and> y \<in> set [0..<?h]} ?s0 s'"
    unfolding s'_def by (rule fold_rows) (simp_all add: labelInv_start)
  moreover have "{(int x, int y) | x y. x < ?w \<and> y \<in> set [0..<?h]} = {p. inBounds ?w ?h p}"
  proof (intro set_eqI iffI)
    fix p assume p: "p \<in> {p. inBounds ?w ?h p}"
    obtain a b where ab: "p = (a, b)" by (cases p)
    with p have "p = (int (nat a), int (nat b)) \<and> nat a < ?w \<and> nat b \<in> set [0..<?h]"
      by (auto simp: inBounds_def)
    then show "p \<in> {(int x, int y) | x y. x < ?w \<and> y \<in> set [0..<?h]}"
      by blast
  next
    fix p assume "p \<in> {(int x, int y) | x y. x < ?w \<and> y \<in> set [0..<?h]}"
    then obtain x y where "p = (int x, int y)" "x < ?w" "y < ?h"
      by auto
    then show "p \<in> {p. inBounds ?w ?h p}"
      by (simp add: inBounds_def)
  qed
  ultimately have sc: "scanned img {p. inBounds ?w ?h p} ?s0 s'"
    by simp
  obtain v comps where s': "s' = (v, comps)" by (cases s')
  from sc have inv: "labelInv ?w ?h ?d (v, comps)"
    and none: "{p. inBounds ?w ?h p} \<inter> ?S \<inter> unvisited ?w ?h v = {}"
    by (simp_all add: scanned_def s')
  from inv have un: "unvisited ?w ?h v = {p. inBounds ?w ?h p} - (\<Union>c\<in>set comps. set (pixels c))"
    and dis: "distinct (concat (map pixels comps))"
    and cls: "\<forall>c\<in>set comps. tightBox c \<and> isClass ?S (set (pixels c))"
    by (simp_all add: labelInv_def)
  have "?S \<subseteq> (\<Union>c\<in>set comps. set (pixels c))"
    using none un strokeSet_inBounds by fastforce
  moreover have "(\<Union>c\<in>set comps. set (pixels c)) \<subseteq> ?S"
    using cls isClass_subset by blast
  ultimately show ?thesis
    using dis cls by (simp add: comps s')
qed


section \<open>What the selector computes\<close>

lemma fold_pickMain:
  "fold pickMain (enumerate n cs) (m, a) = (m', a') \<Longrightarrow>
     (\<forall>c\<in>set cs. area c \<le> a') \<and> a \<le> a' \<and>
     ((m', a') = (m, a) \<or>
      (n \<le> m' \<and> m' < n + length cs \<and> area (cs ! (m' - n)) = a' \<and> a < a' \<and>
       (\<forall>j<m' - n. area (cs ! j) < a')))"
proof (induction cs arbitrary: n m a)
  case Nil
  then show ?case by simp
next
  case (Cons c cs)
  define m1 where "m1 = (if a < area c then n else m)"
  define a1 where "a1 = (if a < area c then area c else a)"
  have "pickMain (n, c) (m, a) = (m1, a1)"
    by (simp add: pickMain_def m1_def a1_def)
  with Cons.prems have "fold pickMain (enumerate (Suc n) cs) (m1, a1) = (m', a')"
    by simp
  from Cons.IH [OF this] have
    le: "\<forall>c\<in>set cs. area c \<le> a'" and a1: "a1 \<le> a'" and
    alt: "(m', a') = (m1, a1) \<or>
      (Suc n \<le> m' \<and> m' < Suc n + length cs \<and> area (cs ! (m' - Suc n)) = a' \<and> a1 < a' \<and>
       (\<forall>j<m' - Suc n. area (cs ! j) < a'))"
    by blast+
  have ca: "area c \<le> a1" "a \<le> a1"
    by (simp_all add: a1_def)
  from alt show ?case
  proof
    assume same: "(m', a') = (m1, a1)"
    show ?thesis
    proof (cases "a < area c")
      case True
      with same have "m' = n" "a' = area c"
        by (simp_all add: m1_def a1_def)
      with True le show ?thesis by simp
    next
      case False
      with same have "(m', a') = (m, a)"
        by (simp add: m1_def a1_def)
      with False le show ?thesis by auto
    qed
  next
    assume later: "Suc n \<le> m' \<and> m' < Suc n + length cs \<and> area (cs ! (m' - Suc n)) = a' \<and>
      a1 < a' \<and> (\<forall>j<m' - Suc n. area (cs ! j) < a')"
    then have "Suc n \<le> m'" by blast
    then have idx: "m' - n = Suc (m' - Suc n)"
      by arith
    have "area ((c # cs) ! j) < a'" if "j < m' - n" for j
    proof (cases j)
      case 0
      with ca later show ?thesis by simp
    next
      case (Suc j')
      with that idx have "j' < m' - Suc n" by simp
      with later Suc show ?thesis by simp
    qed
    moreover have "area ((c # cs) ! (m' - n)) = a'"
      using later idx by simp
    moreover have "\<forall>c'\<in>set (c # cs). area c' \<le> a'"
      using le ca later by auto
    moreover have "n \<le> m'" "m' < n + length (c # cs)" "a < a'" "a \<le> a'"
      using later ca by auto
    ultimately show ?thesis by blast
  qed
qed

lemma mainFrameIndex_spec:
  assumes "cs \<noteq> []" and "\<forall>c\<in>set cs. 0 \<le> area c"
  shows "mainFrameIndex cs < length cs"
    and "\<forall>c\<in>set cs. area c \<le> area (cs ! mainFrameIndex cs)"
    and "\<forall>j<mainFrameIndex cs. area (cs ! j) < area (cs ! mainFrameIndex cs)"
proof -
  obtain m' a' where f: "fold pickMain (enumerate 0 cs) (0, - 1) = (m', a')"
    by (cases "fold pickMain (enumerate 0 cs) (0, - 1)")
  then have m: "mainFrameIndex cs = m'"
    by (simp add: mainFrameIndex_def)
  from fold_pickMain [OF f] have
    le: "\<forall>c\<in>set cs. area c \<le> a'" and
    alt: "(m', a') = (0, - 1) \<or>
      (m' < length cs \<and> area (cs ! m') = a' \<and> (\<forall>j<m'. area (cs ! j) < a'))"
    by auto
  from assms obtain c where "c \<in> set cs" "0 \<le> area c"
    by (cases cs) auto
  with le have "0 \<le> a'" by force
  with alt have *: "m' < length cs \<and> area (cs ! m') = a' \<and> (\<forall>j<m'. area (cs ! j) < a')"
    by auto
  show "mainFrameIndex cs < length cs"
    and "\<forall>c\<in>set cs. area c \<le> area (cs ! mainFrameIndex cs)"
    and "\<forall>j<mainFrameIndex cs. area (cs ! j) < area (cs ! mainFrameIndex cs)"
    using * le by (simp_all add: m)
qed

lemma tightBox_area: 
  assumes "tightBox c"
  shows "0 \<le> area c"
proof -
  let ?xs = "fst ` set (pixels c)" and ?ys = "snd ` set (pixels c)"
  from assms obtain x y where "x \<in> ?xs" "y \<in> ?ys"
    by (cases "pixels c") (auto simp: tightBox_def)
  then have "Min ?xs \<le> x" "x \<le> Max ?xs" "Min ?ys \<le> y" "y \<le> Max ?ys"
    by simp_all
  then have "Min ?xs \<le> Max ?xs" "Min ?ys \<le> Max ?ys"
    by linarith+
  with assms have "0 \<le> maxX c - minX c" "0 \<le> maxY c - minY c"
    by (simp_all add: tightBox_def)
  then show ?thesis
    unfolding area_def by (rule mult_nonneg_nonneg)
qed

text \<open>The four bytes of a pixel.\<close>

definition pixelOf :: "nat \<Rightarrow> byte list \<Rightarrow> coord \<Rightarrow> byte \<times> byte \<times> byte \<times> byte" where
  "pixelOf w d p = (let i = 4 * nat (pixelIndex w p) in (d ! i, d ! (i + 1), d ! (i + 2), d ! (i + 3)))"

definition pixelAt :: "ImageData \<Rightarrow> coord \<Rightarrow> byte \<times> byte \<times> byte \<times> byte" where
  "pixelAt img p = pixelOf (width img) (data img) p"

lemma pixelOf_paint:
  assumes len: "length d = 4 * (w * h)" and p: "inBounds w h p"
  shows "pixelOf w (paint col w A d) p = (if p \<in> A then col else pixelOf w d p)"
proof -
  let ?k = "nat (pixelIndex w p)"
  have lt: "4 * ?k + m < length d" if "m < 4" for m
    using pixelIndex_less [OF p] len that by simp
  have dm: "(4 * ?k + m) div 4 = ?k" "(4 * ?k + m) mod 4 = m" if "m < 4" for m
    using that by auto
  have "paint col w A d ! (4 * ?k + m) = (if p \<in> A then colorAt col m else d ! (4 * ?k + m))"
    if "m < 4" for m
    using lt [OF that] dm [OF that] coordOf_pixelIndex [OF p] by (simp add: nth_paint)
  from this [of 0] this [of 1] this [of 2] this [of 3] show ?thesis
    by (cases col) (simp add: pixelOf_def Let_def colorAt_def)
qed

lemma pixelOf_replicate:
  assumes "inBounds w h p"
  shows "pixelOf w (replicate (4 * (w * h)) c) p = (c, c, c, c)"
  using pixelIndex_less [OF assms] by (simp add: pixelOf_def Let_def)

text \<open>The pixels of the components that the selector keeps.\<close>

definition retained :: "Component list \<Rightarrow> coord set" where
  "retained comps = (\<Union>c\<in>set (objectComponents comps). set (pixels c))"

lemma set_objectComponents:
  "set (objectComponents comps) =
     insert (comps ! mainFrameIndex comps)
       {comps ! k | k. k < length comps \<and> k \<noteq> mainFrameIndex comps \<and>
          centerInside (comps ! mainFrameIndex comps) (comps ! k)}"
  by (auto simp: objectComponents_def Let_def in_set_enumerate_eq image_iff)

lemma fold_paintPixel:
  "length d = 4 * (w * h) \<Longrightarrow> \<forall>p\<in>set ps. inBounds w h p \<Longrightarrow>
     fold (paintPixel w) ps d = paint (0, 0, 0, 255) w (set ps) d"
proof (induction ps arbitrary: d)
  case Nil
  then show ?case by simp
next
  case (Cons p ps)
  from Cons.prems have p: "inBounds w h p" by simp
  have 1: "paintPixel w p d = paint (0, 0, 0, 255) w {p} d"
    using setPixelData_paint [OF Cons.prems(1) p, of "(0, 0, 0, 255)"]
    by (cases p) (simp add: paintPixel_def pixelIndex_def)
  have "fold (paintPixel w) ps (paint (0, 0, 0, 255) w {p} d)
      = paint (0, 0, 0, 255) w (set ps) (paint (0, 0, 0, 255) w {p} d)"
    using Cons.prems by (intro Cons.IH) simp_all
  then show ?case
    by (simp add: 1 paint_paint Un_commute)
qed

lemma fold_paintComponents:
  "length d = 4 * (w * h) \<Longrightarrow> \<forall>c\<in>set cs. \<forall>p\<in>set (pixels c). inBounds w h p \<Longrightarrow>
     fold (\<lambda>component. fold (paintPixel w) (pixels component)) cs d =
     paint (0, 0, 0, 255) w (\<Union>c\<in>set cs. set (pixels c)) d"
proof (induction cs arbitrary: d)
  case Nil
  then show ?case by simp
next
  case (Cons c cs)
  have 1: "fold (paintPixel w) (pixels c) d = paint (0, 0, 0, 255) w (set (pixels c)) d"
    using Cons.prems by (intro fold_paintPixel [where h = h]) simp_all
  have "fold (\<lambda>component. fold (paintPixel w) (pixels component)) cs
          (paint (0, 0, 0, 255) w (set (pixels c)) d)
      = paint (0, 0, 0, 255) w (\<Union>c\<in>set cs. set (pixels c)) (paint (0, 0, 0, 255) w (set (pixels c)) d)"
    using Cons.prems by (intro Cons.IH) simp_all
  then show ?case
    by (simp add: 1 paint_paint Un_commute)
qed

lemma labelComponents_inBounds:
  assumes "c \<in> set (labelComponents img)" and "p \<in> set (pixels c)"
  shows "inBounds (width img) (height img) p"
proof -
  from assms labelComponents_correct [of img]
  have "p \<in> strokeSet (width img) (height img) (data img)"
    by blast
  then show ?thesis by (rule strokeSet_inBounds)
qed

lemma labelComponents_area:
  "c \<in> set (labelComponents img) \<Longrightarrow> 0 \<le> area c"
  using labelComponents_correct [of img] by (blast intro: tightBox_area)

lemma mainFrameIndex_less:
  assumes "labelComponents img \<noteq> []"
  shows "mainFrameIndex (labelComponents img) < length (labelComponents img)"
  using assms by (rule mainFrameIndex_spec) (simp add: labelComponents_area)

lemma objectComponents_subset:
  assumes "labelComponents img \<noteq> []"
  shows "set (objectComponents (labelComponents img)) \<subseteq> set (labelComponents img)"
  using mainFrameIndex_less [OF assms] by (auto simp: set_objectComponents)

lemma findObjectContours_paint:
  "findObjectContours img =
     \<lparr>width = width img, height = height img,
      data = paint (0, 0, 0, 255) (width img)
        (if labelComponents img = [] then {} else retained (labelComponents img))
        (replicate (4 * (width img * height img)) 255)\<rparr>"
proof (cases "labelComponents img = []")
  case True
  then show ?thesis
    by (simp add: findObjectContours_def Let_def newImageData_def)
next
  case False
  let ?w = "width img" and ?h = "height img"
  let ?cs = "objectComponents (labelComponents img)"
  have "\<forall>c\<in>set ?cs. \<forall>p\<in>set (pixels c). inBounds ?w ?h p"
    using objectComponents_subset [OF False] labelComponents_inBounds by blast
  then have "fold (\<lambda>component. fold (paintPixel ?w) (pixels component)) ?cs
        (replicate (4 * (?w * ?h)) 255)
      = paint (0, 0, 0, 255) ?w (\<Union>c\<in>set ?cs. set (pixels c)) (replicate (4 * (?w * ?h)) 255)"
    by (intro fold_paintComponents [where h = "?h"]) simp_all
  with False show ?thesis
    by (simp add: findObjectContours_def Let_def newImageData_def retained_def)
qed

lemma distinct_concat_nth:
  "distinct (concat xss) \<Longrightarrow> i < j \<Longrightarrow> j < length xss \<Longrightarrow> set (xss ! i) \<inter> set (xss ! j) = {}"
proof (induction xss arbitrary: i j)
  case Nil
  then show ?case by simp
next
  case (Cons xs xss)
  from Cons.prems(2) obtain j' where j: "j = Suc j'" by (cases j) auto
  with Cons.prems(3) have j': "j' < length xss" by simp
  show ?case
  proof (cases i)
    case 0
    from j' have "xss ! j' \<in> set xss" by (rule nth_mem)
    then have "set (xss ! j') \<subseteq> set (concat xss)" by auto
    with Cons.prems(1) 0 j show ?thesis by auto
  next
    case (Suc i')
    with Cons.prems j j' Cons.IH [of i' j'] show ?thesis by simp
  qed
qed


subsection \<open>The order of discovery\<close>

text \<open>
  The scan meets pixel \<open>(x, y)\<close> at the row-major position \<open>y * width + x\<close>.
  \<open>firstIndex w c\<close> is the least position of a pixel of \<open>c\<close>: where the scan meets
  the component first.
\<close>

definition firstIndex :: "nat \<Rightarrow> Component \<Rightarrow> int" where
  "firstIndex w c = Min ((\<lambda>p. snd p * int w + fst p) ` set (pixels c))"

definition orderInv :: "nat \<Rightarrow> nat \<Rightarrow> byte list \<Rightarrow> int \<Rightarrow> byte list \<times> Component list \<Rightarrow> bool" where
  "orderInv w h d n s \<longleftrightarrow> (case s of (v, comps) \<Rightarrow>
     labelInv w h d (v, comps) \<and>
     (\<forall>q\<in>strokeSet w h d. pixelIndex w q < n \<longrightarrow> q \<notin> unvisited w h v) \<and>
     (\<forall>c\<in>set comps. firstIndex w c < n) \<and>
     sorted_wrt (<) (map (firstIndex w) comps))"

lemma firstIndex_pixelIndex: "firstIndex w c = Min (pixelIndex w ` set (pixels c))"
proof -
  have "(\<lambda>p. snd p * int w + fst p) = pixelIndex w"
    by (auto simp: pixelIndex_def fun_eq_iff)
  then show ?thesis by (simp only: firstIndex_def)
qed

lemma order_step:
  assumes inv: "orderInv (width img) (height img) (data img) (pixelIndex (width img) (x, y)) (v, comps)"
    and p: "inBounds (width img) (height img) (x, y)"
  shows "orderInv (width img) (height img) (data img) (pixelIndex (width img) (x, y) + 1)
     (scanPixel img y x (v, comps))"
proof -
  let ?w = "width img" and ?h = "height img" and ?d = "data img"
  let ?p = "(x, y)"
  let ?n = "pixelIndex ?w ?p"
  let ?S = "strokeSet ?w ?h ?d"
  let ?I = "{p. inBounds ?w ?h p}"
  from inv have linv: "labelInv ?w ?h ?d (v, comps)"
    and before: "\<forall>q\<in>?S. pixelIndex ?w q < ?n \<longrightarrow> q \<notin> unvisited ?w ?h v"
    and firsts: "\<forall>c\<in>set comps. firstIndex ?w c < ?n"
    and sorted: "sorted_wrt (<) (map (firstIndex ?w) comps)"
    by (simp_all add: orderInv_def)
  from scanPixel_step [OF linv p] obtain v' comps' where
    res: "scanPixel img y x (v, comps) = (v', comps')" and
    linv': "labelInv ?w ?h ?d (v', comps')" and
    sub: "unvisited ?w ?h v' \<subseteq> unvisited ?w ?h v" and
    seen: "?p \<notin> ?S \<inter> unvisited ?w ?h v'"
    by blast
  have before': "\<forall>q\<in>?S. pixelIndex ?w q < ?n + 1 \<longrightarrow> q \<notin> unvisited ?w ?h v'"
  proof (intro ballI impI)
    fix q assume q: "q \<in> ?S" "pixelIndex ?w q < ?n + 1"
    show "q \<notin> unvisited ?w ?h v'"
    proof (cases "pixelIndex ?w q < ?n")
      case True
      with before q(1) sub show ?thesis by blast
    next
      case False
      with q(2) have "pixelIndex ?w q = ?n" by simp
      moreover from q(1) have "inBounds ?w ?h q" by (rule strokeSet_inBounds)
      ultimately have "q = ?p" using p by (intro pixelIndex_inj [of ?w ?h q ?p])
      with seen q(1) show ?thesis by blast
    qed
  qed
  have cond: "rd ?d (?n * 4) = Some 0 \<and> rd v ?n = Some 0 \<longleftrightarrow> ?p \<in> ?S \<inter> unvisited ?w ?h v"
    using p by (simp add: strokeSet_def unvisited_def)
  show ?thesis
  proof (cases "?p \<in> ?S \<inter> unvisited ?w ?h v")
    case False
    then have "scanPixel img y x (v, comps) = (v, comps)"
      using cond by (simp only: scanPixel_eq if_False)
    with res have same: "v' = v" "comps' = comps" by simp_all
    have "\<forall>c\<in>set comps. firstIndex ?w c < ?n + 1"
      using firsts by auto
    with linv' before' sorted show ?thesis
      unfolding res orderInv_def by (simp add: same)
  next
    case True
    let ?c0 = "\<lparr>pixels = [], minX = int ?w, minY = int ?h, maxX = - 1, maxY = - 1\<rparr>"
    obtain v1 c where run: "labelLoop ?w ?h ?d [?p] (wr v ?n 1) ?c0 = (v1, c)"
      by (cases "labelLoop ?w ?h ?d [?p] (wr v ?n 1) ?c0")
    have "scanPixel img y x (v, comps) = (v1, comps @ [c])"
      using True cond run by (simp only: scanPixel_eq if_True prod.case)
    with res have comps': "comps' = comps @ [c]" by simp
    let ?P = "\<Union>c\<in>set comps. set (pixels c)"
    from linv have un: "unvisited ?w ?h v = ?I - ?P"
      by (simp add: labelInv_def)
    from linv' have un': "unvisited ?w ?h v' = ?I - (?P \<union> set (pixels c))"
      and dis': "distinct (concat (map pixels comps @ [pixels c]))"
      and cls: "isClass ?S (set (pixels c))"
      by (simp_all add: labelInv_def comps' Un_commute)
    from cls have cS: "set (pixels c) \<subseteq> ?S" by (rule isClass_subset)
    from dis' have disj: "set (pixels c) \<inter> ?P = {}" by auto
    have cU: "set (pixels c) \<subseteq> unvisited ?w ?h v"
      unfolding un using cS disj strokeSet_inBounds by blast
    have pc: "?p \<in> set (pixels c)"
      using True seen un un' by blast
    have "pixelIndex ?w q \<ge> ?n" if "q \<in> set (pixels c)" for q
    proof (rule ccontr)
      assume "\<not> ?n \<le> pixelIndex ?w q"
      then have "pixelIndex ?w q < ?n" by simp
      moreover from that cS have "q \<in> ?S" by blast
      ultimately have "q \<notin> unvisited ?w ?h v" using before by blast
      with that cU show False by blast
    qed
    then have "Min (pixelIndex ?w ` set (pixels c)) = ?n"
      using pc by (intro Min_eqI) auto
    then have fc: "firstIndex ?w c = ?n"
      by (simp only: firstIndex_pixelIndex)
    have "\<forall>c'\<in>set (comps @ [c]). firstIndex ?w c' < ?n + 1"
      using firsts fc by auto
    moreover have "sorted_wrt (<) (map (firstIndex ?w) (comps @ [c]))"
      using sorted firsts fc by (simp add: sorted_wrt_append)
    ultimately show ?thesis
      unfolding res orderInv_def using linv' before' by (simp add: comps')
  qed
qed

lemma order_row:
  "orderInv (width img) (height img) (data img) (int y * int (width img) + int a) s \<Longrightarrow>
   a + k \<le> width img \<Longrightarrow> y < height img \<Longrightarrow>
   orderInv (width img) (height img) (data img) (int y * int (width img) + int (a + k))
     (fold (\<lambda>x. scanPixel img (int y) (int x)) [a..<a + k] s)"
proof (induction k arbitrary: a s)
  case 0
  then show ?case by simp
next
  case (Suc k)
  obtain v comps where s: "s = (v, comps)" by (cases s)
  have idx: "int y * int (width img) + int a = pixelIndex (width img) (int a, int y)"
    by (simp add: pixelIndex_def)
  have nxt: "pixelIndex (width img) (int a, int y) + 1 = int y * int (width img) + int (Suc a)"
    by (simp add: pixelIndex_def)
  have inb: "inBounds (width img) (height img) (int a, int y)"
    using Suc.prems(2,3) by (simp add: inBounds_def)
  have "orderInv (width img) (height img) (data img) (pixelIndex (width img) (int a, int y) + 1)
     (scanPixel img (int y) (int a) (v, comps))"
    using Suc.prems(1) inb unfolding s idx by (rule order_step)
  then have 1: "orderInv (width img) (height img) (data img)
     (int y * int (width img) + int (Suc a)) (scanPixel img (int y) (int a) s)"
    unfolding nxt s .
  have 2: "orderInv (width img) (height img) (data img) (int y * int (width img) + int (Suc a + k))
     (fold (\<lambda>x. scanPixel img (int y) (int x)) [Suc a..<Suc a + k] (scanPixel img (int y) (int a) s))"
    using 1 Suc.prems(2,3) by (intro Suc.IH) simp_all
  have l: "[a..<a + Suc k] = a # [Suc a..<Suc a + k]"
    by (simp add: upt_conv_Cons)
  have e: "a + Suc k = Suc a + k" by simp
  have f: "fold (\<lambda>x. scanPixel img (int y) (int x)) [a..<a + Suc k] s
      = fold (\<lambda>x. scanPixel img (int y) (int x)) [Suc a..<Suc a + k] (scanPixel img (int y) (int a) s)"
    unfolding l by simp
  show ?case
    unfolding f unfolding e by (rule 2)
qed

lemma order_rows:
  "orderInv (width img) (height img) (data img) (int a * int (width img)) s \<Longrightarrow>
   a + k \<le> height img \<Longrightarrow>
   orderInv (width img) (height img) (data img) (int (a + k) * int (width img))
     (fold (\<lambda>y. fold (\<lambda>x. scanPixel img (int y) (int x)) [0..<width img]) [a..<a + k] s)"
proof (induction k arbitrary: a s)
  case 0
  then show ?case by simp
next
  case (Suc k)
  let ?row = "\<lambda>y. fold (\<lambda>x. scanPixel img (int y) (int x)) [0..<width img]"
  have z: "int a * int (width img) = int a * int (width img) + int 0" by simp
  have "orderInv (width img) (height img) (data img) (int a * int (width img) + int (0 + width img))
     (fold (\<lambda>x. scanPixel img (int a) (int x)) [0..<0 + width img] s)"
    using Suc.prems by (intro order_row) simp_all
  moreover have "int a * int (width img) + int (0 + width img) = int (Suc a) * int (width img)"
    by (simp add: algebra_simps)
  ultimately have 1: "orderInv (width img) (height img) (data img) (int (Suc a) * int (width img)) (?row a s)"
    by simp
  have 2: "orderInv (width img) (height img) (data img) (int (Suc a + k) * int (width img))
     (fold ?row [Suc a..<Suc a + k] (?row a s))"
    using 1 Suc.prems(2) by (intro Suc.IH) simp_all
  have l: "[a..<a + Suc k] = a # [Suc a..<Suc a + k]"
    by (simp add: upt_conv_Cons)
  have e: "a + Suc k = Suc a + k" by simp
  have f: "fold ?row [a..<a + Suc k] s = fold ?row [Suc a..<Suc a + k] (?row a s)"
    unfolding l by simp
  show ?case
    unfolding f unfolding e by (rule 2)
qed

lemma labelComponents_order:
  "sorted_wrt (<) (map (firstIndex (width img)) (labelComponents img))"
proof -
  let ?w = "width img" and ?h = "height img" and ?d = "data img"
  let ?s0 = "(replicate (?w * ?h) (0 :: byte), [] :: Component list)"
  have "\<not> pixelIndex ?w q < 0" if "q \<in> strokeSet ?w ?h ?d" for q
    using pixelIndex_nonneg [OF strokeSet_inBounds [OF that]] by simp
  then have "orderInv ?w ?h ?d (int 0 * int ?w) ?s0"
    by (simp add: orderInv_def labelInv_start)
  then have "orderInv ?w ?h ?d (int (0 + ?h) * int ?w)
     (fold (\<lambda>y. fold (\<lambda>x. scanPixel img (int y) (int x)) [0..<?w]) [0..<0 + ?h] ?s0)"
    by (rule order_rows) simp
  then show ?thesis
    by (simp add: orderInv_def labelComponents_def split: prod.splits)
qed

section \<open>Maximal 4-connected groups\<close>

text \<open>
  4-adjacency as the glossary of the spec has it: the up, down, left and right
  neighbours of a pixel, that is, the pixels at distance 1 when the distance is
  \<open>|dx| + |dy|\<close>.
\<close>

definition adjacent4 :: "coord \<Rightarrow> coord \<Rightarrow> bool" where
  "adjacent4 p q \<longleftrightarrow> \<bar>fst p - fst q\<bar> + \<bar>snd p - snd q\<bar> = 1"

text \<open>\<open>joined A p q\<close>: a chain of 4-adjacent pixels, all in \<open>A\<close>, leads from \<open>p\<close> to \<open>q\<close>.\<close>

inductive joined :: "coord set \<Rightarrow> coord \<Rightarrow> coord \<Rightarrow> bool" for A :: "coord set" where
  start: "p \<in> A \<Longrightarrow> joined A p p"
| move: "p \<in> A \<Longrightarrow> adjacent4 p q \<Longrightarrow> joined A q r \<Longrightarrow> joined A p r"

text \<open>
  \<open>isGroup S C\<close>: \<open>C\<close> is a maximal 4-connected group of pixels of \<open>S\<close>: it is a
  non-empty part of \<open>S\<close>, any two of its pixels are joined by a chain inside \<open>C\<close>, and
  no pixel of \<open>S\<close> outside \<open>C\<close> is 4-adjacent to a pixel of \<open>C\<close>.
\<close>

definition isGroup :: "coord set \<Rightarrow> coord set \<Rightarrow> bool" where
  "isGroup S C \<longleftrightarrow>
     C \<noteq> {} \<and> C \<subseteq> S \<and> (\<forall>p\<in>C. \<forall>q\<in>C. joined C p q) \<and>
     (\<forall>p\<in>C. \<forall>q\<in>S. adjacent4 p q \<longrightarrow> q \<in> C)"

lemma adjacent4_neighbors: "adjacent4 p q \<longleftrightarrow> q \<in> set (neighbors p)"
proof -
  obtain a b where p: "p = (a, b)" by (cases p)
  obtain c d where q: "q = (c, d)" by (cases q)
  have "\<bar>a - c\<bar> + \<bar>b - d\<bar> = 1 \<longleftrightarrow>
      (c = a + 1 \<and> d = b) \<or> (c = a - 1 \<and> d = b) \<or> (c = a \<and> d = b + 1) \<or> (c = a \<and> d = b - 1)"
    by arith
  then show ?thesis
    by (auto simp: adjacent4_def neighbors_def p q)
qed

lemma joined_connected: "joined A p q \<longleftrightarrow> connected A p q"
proof
  assume "joined A p q"
  then show "connected A p q"
    by (induction rule: joined.induct)
      (auto intro: connected.intros simp: adjacent4_neighbors)
next
  assume "connected A p q"
  then show "joined A p q"
    by (induction rule: connected.induct)
      (auto intro: joined.intros simp: adjacent4_neighbors)
qed

lemma isClass_isGroup:
  assumes "isClass S C"
  shows "isGroup S C"
proof -
  from assms have ne: "C \<noteq> {}" and cls: "\<And>p. p \<in> C \<Longrightarrow> C = {q. connected S p q}"
    by (auto simp: isClass_def)
  have sub: "C \<subseteq> S"
    using assms by (rule isClass_subset)
  have closed: "r \<in> S - C" if "p \<in> S - C" "connected S p r" for p r
  proof -
    have "r \<in> S" using that(2) by (rule connected_target)
    moreover have "r \<notin> C"
    proof
      assume "r \<in> C"
      moreover have "connected S r p" using that(2) by (rule connected_sym)
      ultimately have "p \<in> C" using cls by blast
      with that(1) show False by simp
    qed
    ultimately show ?thesis by simp
  qed
  have inside: "joined C p q" if "p \<in> C" "q \<in> C" for p q
  proof -
    from that cls have "connected S p q" by blast
    moreover from that(2) have "q \<notin> S - C" by simp
    ultimately have "connected (S - (S - C)) p q"
      by (rule connected_outside) (rule closed)
    moreover have "S - (S - C) = C" using sub by blast
    ultimately show ?thesis by (simp add: joined_connected)
  qed
  have maximal: "q \<in> C" if "p \<in> C" "q \<in> S" "adjacent4 p q" for p q
  proof -
    from that(1) sub have "p \<in> S" by blast
    moreover from that(3) have "q \<in> set (neighbors p)" by (simp add: adjacent4_neighbors)
    moreover from that(2) have "connected S q q" by (rule connected.here)
    ultimately have "connected S p q" by (rule connected.step)
    with that(1) cls show ?thesis by blast
  qed
  from ne sub inside maximal show ?thesis
    unfolding isGroup_def by blast
qed

section \<open>Example buffers\<close>

text \<open>A 3\<times>1 image: a black pixel, a white pixel, a black pixel.\<close>

definition twoDots :: ImageData where
  "twoDots = \<lparr>width = 3, height = 1,
     data = [0, 0, 0, 255, 255, 255, 255, 255, 0, 0, 0, 255]\<rparr>"

lemma labelComponents_twoDots:
  "labelComponents twoDots =
     [\<lparr>pixels = [(0, 0)], minX = 0, minY = 0, maxX = 0, maxY = 0\<rparr>,
      \<lparr>pixels = [(2, 0)], minX = 2, minY = 0, maxX = 2, maxY = 0\<rparr>]"
  by code_simp

text \<open>
  An 8\<times>2 image: a black dot at the left, then two black 2\<times>2 squares.
\<close>

definition threeBlobs :: ImageData where
  "threeBlobs = \<lparr>width = 8, height = 2,
     data = concat (map (\<lambda>b. if b then [0, 0, 0, 255] else [255, 255, 255, 255])
       [True, False, True, True, False, True, True, False,
        False, False, True, True, False, True, True, False])\<rparr>"

lemma labelComponents_threeBlobs:
  "labelComponents threeBlobs =
     [\<lparr>pixels = [(0, 0)], minX = 0, minY = 0, maxX = 0, maxY = 0\<rparr>,
      \<lparr>pixels = [(2, 0), (2, 1), (3, 1), (3, 0)], minX = 2, minY = 0, maxX = 3, maxY = 1\<rparr>,
      \<lparr>pixels = [(5, 0), (5, 1), (6, 1), (6, 0)], minX = 5, minY = 0, maxX = 6, maxY = 1\<rparr>]"
  by code_simp

text \<open>
  A 7\<times>5 image: a black square ring on columns and rows 0..4 with a black dot in its
  middle, and a black dot in the top right corner.
\<close>

definition ringDot :: ImageData where
  "ringDot = \<lparr>width = 7, height = 5,
     data = concat (map (\<lambda>b. if b then [0, 0, 0, 255] else [255, 255, 255, 255])
       [True, True, True, True, True, False, True,
        True, False, False, False, True, False, False,
        True, False, True, False, True, False, False,
        True, False, False, False, True, False, False,
        True, True, True, True, True, False, False])\<rparr>"

lemma labelComponents_ringDot:
  "labelComponents ringDot =
     [\<lparr>pixels = [(0, 0), (0, 1), (0, 2), (0, 3), (0, 4), (1, 4), (2, 4), (3, 4),
                 (4, 4), (4, 3), (4, 2), (4, 1), (4, 0), (3, 0), (2, 0), (1, 0)],
       minX = 0, minY = 0, maxX = 4, maxY = 4\<rparr>,
      \<lparr>pixels = [(6, 0)], minX = 6, minY = 0, maxX = 6, maxY = 0\<rparr>,
      \<lparr>pixels = [(2, 2)], minX = 2, minY = 2, maxX = 2, maxY = 2\<rparr>]"
  by code_simp

lemma mainFrameIndex_ringDot: "mainFrameIndex (labelComponents ringDot) = 0"
  by (simp add: labelComponents_ringDot mainFrameIndex_def pickMain_def area_def)

section \<open>The claims\<close>

text \<open>
  C3.  One labeling pass partitions the STROKE pixels of the mask: the pixel lists of the
  components, put end to end, hold every STROKE pixel and hold no pixel twice, so every
  STROKE pixel is in exactly one component and once in its list; each component is a
  maximal 4-connected group of STROKE pixels (any two of its pixels are joined by a chain
  of up, down, left and right steps inside it, and no STROKE pixel outside it is
  4-adjacent to one of its pixels); and its \<open>minX\<close>, \<open>minY\<close>, \<open>maxX\<close>, \<open>maxY\<close> are the
  least and greatest X and Y of its pixels.
\<close>

theorem labeler_partition:
  "distinct (concat (map pixels (labelComponents img))) \<and>
   set (concat (map pixels (labelComponents img))) =
     strokeSet (width img) (height img) (data img) \<and>
   (\<forall>p\<in>strokeSet (width img) (height img) (data img).
      \<exists>!k. k < length (labelComponents img) \<and> p \<in> set (pixels (labelComponents img ! k))) \<and>
   (\<forall>c\<in>set (labelComponents img).
      isGroup (strokeSet (width img) (height img) (data img)) (set (pixels c)) \<and>
      pixels c \<noteq> [] \<and>
      minX c = Min (fst ` set (pixels c)) \<and> minY c = Min (snd ` set (pixels c)) \<and>
      maxX c = Max (fst ` set (pixels c)) \<and> maxY c = Max (snd ` set (pixels c)))"
proof -
  let ?cs = "labelComponents img"
  let ?S = "strokeSet (width img) (height img) (data img)"
  from labelComponents_correct [of img] have
    dis: "distinct (concat (map pixels ?cs))" and
    un: "(\<Union>c\<in>set ?cs. set (pixels c)) = ?S" and
    cls: "\<forall>c\<in>set ?cs. tightBox c \<and> isClass ?S (set (pixels c))"
    by blast+
  have "\<exists>!k. k < length ?cs \<and> p \<in> set (pixels (?cs ! k))" if "p \<in> ?S" for p
  proof -
    from that un obtain c where "c \<in> set ?cs" "p \<in> set (pixels c)"
      by blast
    then obtain k where k: "k < length ?cs" "p \<in> set (pixels (?cs ! k))"
      by (auto simp: in_set_conv_nth)
    have "j = k" if j: "j < length ?cs" "p \<in> set (pixels (?cs ! j))" for j
    proof (rule ccontr)
      assume "j \<noteq> k"
      then consider "j < k" | "k < j" by linarith
      then have "set (map pixels ?cs ! j) \<inter> set (map pixels ?cs ! k) = {}"
      proof cases
        case 1
        with dis k(1) show ?thesis
          by (intro distinct_concat_nth) simp_all
      next
        case 2
        with dis j(1) have "set (map pixels ?cs ! k) \<inter> set (map pixels ?cs ! j) = {}"
          by (intro distinct_concat_nth) simp_all
        then show ?thesis by blast
      qed
      with j k show False by auto
    qed
    with k show ?thesis by blast
  qed
  moreover have "set (concat (map pixels ?cs)) = ?S"
    using un by simp
  moreover have "\<forall>c\<in>set ?cs. isGroup ?S (set (pixels c))"
    using cls isClass_isGroup by blast
  ultimately show ?thesis
    using dis cls by (simp add: tightBox_def)
qed

theorem labeler_partition_witness:
  "map (\<lambda>c. set (pixels c)) (labelComponents threeBlobs) =
     [{(0, 0)}, {(2, 0), (2, 1), (3, 1), (3, 0)}, {(5, 0), (5, 1), (6, 1), (6, 0)}] \<and>
   strokeSet (width threeBlobs) (height threeBlobs) (data threeBlobs) =
     {(0, 0), (2, 0), (2, 1), (3, 1), (3, 0), (5, 0), (5, 1), (6, 1), (6, 0)} \<and>
   isGroup (strokeSet (width threeBlobs) (height threeBlobs) (data threeBlobs))
     {(2, 0), (2, 1), (3, 1), (3, 0)} \<and>
   joined {(2, 0), (2, 1), (3, 1), (3, 0)} (2, 0) (3, 1) \<and>
   Min (fst ` set (pixels (labelComponents threeBlobs ! 1))) = 2 \<and>
   Max (fst ` set (pixels (labelComponents threeBlobs ! 1))) = 3 \<and>
   Min (snd ` set (pixels (labelComponents threeBlobs ! 1))) = 0 \<and>
   Max (snd ` set (pixels (labelComponents threeBlobs ! 1))) = 1 \<and>
   (\<exists>!k. k < length (labelComponents threeBlobs) \<and>
      (3, 1) \<in> set (pixels (labelComponents threeBlobs ! k)))"
proof -
  let ?S = "strokeSet (width threeBlobs) (height threeBlobs) (data threeBlobs)"
  let ?cs = "labelComponents threeBlobs"
  let ?C = "{(2, 0), (2, 1), (3, 1), (3, 0)} :: coord set"
  note t = labeler_partition [of threeBlobs]
  have px: "map (\<lambda>c. set (pixels c)) ?cs =
     [{(0, 0)}, ?C, {(5, 0), (5, 1), (6, 1), (6, 0)}]"
    by (simp add: labelComponents_threeBlobs)
  from t have "set (concat (map pixels ?cs)) = ?S" by blast
  then have S: "?S = {(0, 0), (2, 0), (2, 1), (3, 1), (3, 0), (5, 0), (5, 1), (6, 1), (6, 0)}"
    by (simp add: labelComponents_threeBlobs)
  have in1: "?cs ! 1 \<in> set ?cs"
    by (simp add: labelComponents_threeBlobs)
  have c1: "set (pixels (?cs ! 1)) = ?C" "minX (?cs ! 1) = 2" "maxX (?cs ! 1) = 3"
    "minY (?cs ! 1) = 0" "maxY (?cs ! 1) = 1"
    by (simp_all add: labelComponents_threeBlobs)
  from t in1 have "isGroup ?S (set (pixels (?cs ! 1)))"
    and box: "minX (?cs ! 1) = Min (fst ` set (pixels (?cs ! 1)))"
      "maxX (?cs ! 1) = Max (fst ` set (pixels (?cs ! 1)))"
      "minY (?cs ! 1) = Min (snd ` set (pixels (?cs ! 1)))"
      "maxY (?cs ! 1) = Max (snd ` set (pixels (?cs ! 1)))"
    by blast+
  then have g: "isGroup ?S ?C"
    by (simp only: c1)
  then have j: "joined ?C (2, 0) (3, 1)"
    unfolding isGroup_def by blast
  from box have b: "Min (fst ` set (pixels (?cs ! 1))) = 2" "Max (fst ` set (pixels (?cs ! 1))) = 3"
    "Min (snd ` set (pixels (?cs ! 1))) = 0" "Max (snd ` set (pixels (?cs ! 1))) = 1"
    by (simp_all only: c1(2-5))
  from t have "\<forall>p\<in>?S. \<exists>!k. k < length ?cs \<and> p \<in> set (pixels (?cs ! k))" by blast
  moreover have "(3, 1) \<in> ?S" by (simp add: S)
  ultimately have u: "\<exists>!k. k < length ?cs \<and> (3, 1) \<in> set (pixels (?cs ! k))"
    by blast
  from px S g j b u show ?thesis by blast
qed

text \<open>
  C2.  When the labeler has found a component, \<open>mainFrame\<close> is a component of greatest
  bounding-box area \<open>(maxX - minX) * (maxY - minY)\<close>, and every component before it in
  the sequence has a strictly smaller area.  The sequence is in the order of discovery
  of the row-major scan: of two components, the earlier in the sequence is the one
  whose first pixel in row-major order (the least \<open>y * width + x\<close>) comes first.  So of
  several components of greatest area, \<open>mainFrame\<close> is the one that the scan met first.
\<close>

theorem mainFrame_greatest_first:
  assumes "labelComponents img \<noteq> []"
  shows "mainFrameIndex (labelComponents img) < length (labelComponents img) \<and>
    hd (objectComponents (labelComponents img)) =
      labelComponents img ! mainFrameIndex (labelComponents img) \<and>
    (\<forall>c\<in>set (labelComponents img).
       (maxX c - minX c) * (maxY c - minY c) \<le> area (labelComponents img ! mainFrameIndex (labelComponents img))) \<and>
    (\<forall>j<mainFrameIndex (labelComponents img).
       area (labelComponents img ! j) < area (labelComponents img ! mainFrameIndex (labelComponents img))) \<and>
    (\<forall>i j. i < j \<and> j < length (labelComponents img) \<longrightarrow>
       firstIndex (width img) (labelComponents img ! i) < firstIndex (width img) (labelComponents img ! j)) \<and>
    (\<forall>k<length (labelComponents img).
       k \<noteq> mainFrameIndex (labelComponents img) \<and>
       area (labelComponents img ! k) = area (labelComponents img ! mainFrameIndex (labelComponents img)) \<longrightarrow>
       firstIndex (width img) (labelComponents img ! mainFrameIndex (labelComponents img))
         < firstIndex (width img) (labelComponents img ! k))"
proof -
  let ?cs = "labelComponents img"
  let ?m = "mainFrameIndex ?cs"
  have "\<forall>c\<in>set ?cs. 0 \<le> area c"
    by (simp add: labelComponents_area)
  note spec = mainFrameIndex_spec [OF assms this]
  have order: "firstIndex (width img) (?cs ! i) < firstIndex (width img) (?cs ! j)"
    if "i < j" "j < length ?cs" for i j
    using labelComponents_order [of img] that
    by (simp add: sorted_wrt_iff_nth_less)
  have tie: "firstIndex (width img) (?cs ! ?m) < firstIndex (width img) (?cs ! k)"
    if "k < length ?cs" "k \<noteq> ?m" "area (?cs ! k) = area (?cs ! ?m)" for k
  proof -
    from spec(3) that(3) have "\<not> k < ?m" by auto
    with that(2) have "?m < k" by simp
    then show ?thesis using that(1) by (rule order)
  qed
  from spec order tie show ?thesis
    by (simp add: objectComponents_def Let_def area_def)
qed

theorem mainFrame_greatest_first_witness:
  "labelComponents threeBlobs \<noteq> [] \<and>
   mainFrameIndex (labelComponents threeBlobs) = 1 \<and>
   map area (labelComponents threeBlobs) = [0, 1, 1] \<and>
   map (firstIndex (width threeBlobs)) (labelComponents threeBlobs) = [0, 2, 5] \<and>
   area (labelComponents threeBlobs ! 0) < area (labelComponents threeBlobs ! 1) \<and>
   area (labelComponents threeBlobs ! 2) = area (labelComponents threeBlobs ! 1) \<and>
   firstIndex (width threeBlobs) (labelComponents threeBlobs ! 1)
     < firstIndex (width threeBlobs) (labelComponents threeBlobs ! 2)"
proof -
  let ?cs = "labelComponents threeBlobs"
  have ne: "?cs \<noteq> []"
    by (simp add: labelComponents_threeBlobs)
  have m: "mainFrameIndex ?cs = 1"
    by (simp add: labelComponents_threeBlobs mainFrameIndex_def pickMain_def area_def)
  have a: "map area ?cs = [0, 1, 1]"
    by (simp add: labelComponents_threeBlobs area_def)
  have w: "width threeBlobs = 8"
    by (simp add: threeBlobs_def)
  have f: "map (firstIndex (width threeBlobs)) ?cs = [0, 2, 5]"
    by (simp add: w labelComponents_threeBlobs firstIndex_def)
  have k: "2 < length ?cs" "(2 :: nat) \<noteq> 1" "(0 :: nat) < 1"
    by (simp_all add: labelComponents_threeBlobs)
  have e: "area (?cs ! 2) = area (?cs ! 1)"
    by (simp add: labelComponents_threeBlobs area_def)
  note t = mainFrame_greatest_first [OF ne, unfolded m]
  from t k(3) have "area (?cs ! 0) < area (?cs ! 1)" by blast
  moreover from t k(1,2) e have
    "firstIndex (width threeBlobs) (?cs ! 1) < firstIndex (width threeBlobs) (?cs ! 2)"
    by blast
  ultimately show ?thesis
    using ne m a f e by blast
qed

text \<open>
  C1.  In a run with at least two components, take a component other than \<open>mainFrame\<close>.
  All of its pixels (it has some) are painted STROKE \<open>(0, 0, 0, 255)\<close> in the object mask
  if and only if the centre \<open>((minX + maxX) / 2, (minY + maxY) / 2)\<close> of its box lies in
  the box of \<open>mainFrame\<close>, the four bounds included; otherwise all of them keep the
  \<open>(255, 255, 255, 255)\<close> that the mask starts with.  Nothing but the centre is compared.
\<close>

theorem secondary_kept_iff_center_inside:
  assumes "2 \<le> length (labelComponents img)"
    and "k < length (labelComponents img)"
    and "k \<noteq> mainFrameIndex (labelComponents img)"
  shows "pixels (labelComponents img ! k) \<noteq> [] \<and>
    ((\<forall>p\<in>set (pixels (labelComponents img ! k)).
        pixelAt (findObjectContours img) p = (0, 0, 0, 255)) \<longleftrightarrow>
     of_int (minX (labelComponents img ! mainFrameIndex (labelComponents img)))
       \<le> (of_int (minX (labelComponents img ! k)) + of_int (maxX (labelComponents img ! k))) / (2 :: rat) \<and>
     (of_int (minX (labelComponents img ! k)) + of_int (maxX (labelComponents img ! k))) / (2 :: rat)
       \<le> of_int (maxX (labelComponents img ! mainFrameIndex (labelComponents img))) \<and>
     of_int (minY (labelComponents img ! mainFrameIndex (labelComponents img)))
       \<le> (of_int (minY (labelComponents img ! k)) + of_int (maxY (labelComponents img ! k))) / (2 :: rat) \<and>
     (of_int (minY (labelComponents img ! k)) + of_int (maxY (labelComponents img ! k))) / (2 :: rat)
       \<le> of_int (maxY (labelComponents img ! mainFrameIndex (labelComponents img)))) \<and>
    ((\<forall>p\<in>set (pixels (labelComponents img ! k)).
        pixelAt (findObjectContours img) p = (255, 255, 255, 255)) \<longleftrightarrow>
     \<not> centerInside (labelComponents img ! mainFrameIndex (labelComponents img))
         (labelComponents img ! k))"
proof -
  let ?cs = "labelComponents img"
  let ?m = "mainFrameIndex ?cs"
  let ?c = "?cs ! k"
  let ?w = "width img" and ?h = "height img"
  from assms(1) have ne: "?cs \<noteq> []" by auto
  from labelComponents_correct [of img] have
    dis: "distinct (concat (map pixels ?cs))" and
    cls: "\<forall>c\<in>set ?cs. tightBox c \<and> isClass (strokeSet ?w ?h (data img)) (set (pixels c))"
    by blast+
  have cin: "?c \<in> set ?cs" using assms(2) by simp
  with cls have nonempty: "pixels ?c \<noteq> []" by (simp add: tightBox_def)
  have centre: "centerInside (?cs ! ?m) ?c \<longleftrightarrow>
     of_int (minX (?cs ! ?m)) \<le> (of_int (minX ?c) + of_int (maxX ?c)) / (2 :: rat) \<and>
     (of_int (minX ?c) + of_int (maxX ?c)) / (2 :: rat) \<le> of_int (maxX (?cs ! ?m)) \<and>
     of_int (minY (?cs ! ?m)) \<le> (of_int (minY ?c) + of_int (maxY ?c)) / (2 :: rat) \<and>
     (of_int (minY ?c) + of_int (maxY ?c)) / (2 :: rat) \<le> of_int (maxY (?cs ! ?m))"
  proof -
    have "(of_int a + (of_int b - of_int a) / 2 :: rat) = (of_int a + of_int b) / 2" for a b :: int
      by (simp add: field_simps)
    then show ?thesis
      by (simp only: centerInside_def Let_def)
  qed
  have disj: "set (pixels (?cs ! j)) \<inter> set (pixels ?c) = {}" if "j < length ?cs" "j \<noteq> k" for j
  proof -
    from that(2) consider "j < k" | "k < j" by linarith
    then have "set (map pixels ?cs ! j) \<inter> set (map pixels ?cs ! k) = {}"
    proof cases
      case 1
      with dis assms(2) show ?thesis
        by (intro distinct_concat_nth) simp_all
    next
      case 2
      with dis that(1) have "set (map pixels ?cs ! k) \<inter> set (map pixels ?cs ! j) = {}"
        by (intro distinct_concat_nth) simp_all
      then show ?thesis by blast
    qed
    with that(1) assms(2) show ?thesis by simp
  qed
  have mlt: "?m < length ?cs" using ne by (rule mainFrameIndex_less)
  have kept: "p \<in> retained ?cs \<longleftrightarrow> centerInside (?cs ! ?m) ?c" if p: "p \<in> set (pixels ?c)" for p
  proof
    assume "centerInside (?cs ! ?m) ?c"
    with assms(2,3) have "?c \<in> set (objectComponents ?cs)"
      unfolding set_objectComponents by blast
    with p show "p \<in> retained ?cs"
      unfolding retained_def by blast
  next
    assume "p \<in> retained ?cs"
    then obtain c where c: "c \<in> set (objectComponents ?cs)" "p \<in> set (pixels c)"
      unfolding retained_def by blast
    from c(1) consider "c = ?cs ! ?m"
      | j where "c = ?cs ! j" "j < length ?cs" "j \<noteq> ?m" "centerInside (?cs ! ?m) (?cs ! j)"
      unfolding set_objectComponents by blast
    then show "centerInside (?cs ! ?m) ?c"
    proof cases
      case 1
      with disj [OF mlt] assms(3) c(2) p show ?thesis by auto
    next
      case 2
      show ?thesis
      proof (cases "j = k")
        case True
        with 2 show ?thesis by simp
      next
        case False
        with disj [OF 2(2)] 2(1) c(2) p show ?thesis by auto
      qed
    qed
  qed
  have px: "pixelAt (findObjectContours img) p =
      (if centerInside (?cs ! ?m) ?c then (0, 0, 0, 255) else (255, 255, 255, 255))"
    if p: "p \<in> set (pixels ?c)" for p
  proof -
    from cin p have inb: "inBounds ?w ?h p" by (rule labelComponents_inBounds)
    have "pixelAt (findObjectContours img) p =
        pixelOf ?w (paint (0, 0, 0, 255) ?w (retained ?cs) (replicate (4 * (?w * ?h)) 255)) p"
      using ne by (simp add: pixelAt_def findObjectContours_paint)
    also have "\<dots> = (if p \<in> retained ?cs then (0, 0, 0, 255) else (255, 255, 255, 255))"
      using inb by (simp add: pixelOf_paint [where h = ?h] pixelOf_replicate)
    finally show ?thesis
      by (simp only: kept [OF p])
  qed
  from nonempty obtain q where q: "q \<in> set (pixels ?c)"
    by (cases "pixels ?c") auto
  have "(\<forall>p\<in>set (pixels ?c). pixelAt (findObjectContours img) p = (0, 0, 0, 255))
      \<longleftrightarrow> centerInside (?cs ! ?m) ?c"
  proof
    assume "\<forall>p\<in>set (pixels ?c). pixelAt (findObjectContours img) p = (0, 0, 0, 255)"
    with q have "pixelAt (findObjectContours img) q = (0, 0, 0, 255)" by blast
    with px [OF q] show "centerInside (?cs ! ?m) ?c"
      by (simp split: if_splits)
  next
    assume "centerInside (?cs ! ?m) ?c"
    with px show "\<forall>p\<in>set (pixels ?c). pixelAt (findObjectContours img) p = (0, 0, 0, 255)"
      by simp
  qed
  moreover have "(\<forall>p\<in>set (pixels ?c). pixelAt (findObjectContours img) p = (255, 255, 255, 255))
      \<longleftrightarrow> \<not> centerInside (?cs ! ?m) ?c"
  proof
    assume "\<forall>p\<in>set (pixels ?c). pixelAt (findObjectContours img) p = (255, 255, 255, 255)"
    with q have "pixelAt (findObjectContours img) q = (255, 255, 255, 255)" by blast
    with px [OF q] show "\<not> centerInside (?cs ! ?m) ?c"
      by (simp split: if_splits)
  next
    assume "\<not> centerInside (?cs ! ?m) ?c"
    with px show "\<forall>p\<in>set (pixels ?c). pixelAt (findObjectContours img) p = (255, 255, 255, 255)"
      by simp
  qed
  ultimately show ?thesis
    using nonempty centre by simp
qed

theorem secondary_kept_iff_center_inside_witness:
  "2 \<le> length (labelComponents ringDot) \<and>
   mainFrameIndex (labelComponents ringDot) = 0 \<and>
   pixels (labelComponents ringDot ! 1) = [(6, 0)] \<and>
   pixelAt (findObjectContours ringDot) (6, 0) = (255, 255, 255, 255) \<and>
   pixels (labelComponents ringDot ! 2) = [(2, 2)] \<and>
   pixelAt (findObjectContours ringDot) (2, 2) = (0, 0, 0, 255)"
proof -
  have len: "2 \<le> length (labelComponents ringDot)"
    by (simp add: labelComponents_ringDot)
  have k1: "1 < length (labelComponents ringDot)" "1 \<noteq> mainFrameIndex (labelComponents ringDot)"
    and k2: "2 < length (labelComponents ringDot)" "2 \<noteq> mainFrameIndex (labelComponents ringDot)"
    by (simp_all add: labelComponents_ringDot mainFrameIndex_def pickMain_def area_def)
  have out: "\<not> centerInside (labelComponents ringDot ! 0) (labelComponents ringDot ! 1)"
    by (simp add: labelComponents_ringDot centerInside_def)
  from secondary_kept_iff_center_inside [OF len k1] secondary_kept_iff_center_inside [OF len k2] out
  show ?thesis
    by (simp add: labelComponents_ringDot mainFrameIndex_def pickMain_def area_def)
qed


section \<open>Pixel classes\<close>

text \<open>
  The three classes, as the compositor of \<^verbatim>\<open>process\<close> tells them apart: R = 255 and
  G = 0 is the exterior marker, R = 0 a line, anything else the interior.
\<close>

datatype PixelClass = STROKE | INTERIOR | EXTERIOR

definition classOf :: "byte \<times> byte \<times> byte \<times> byte \<Rightarrow> PixelClass" where
  "classOf px = (case px of (r, g, b, a) \<Rightarrow>
     if r = 255 \<and> g = 0 then EXTERIOR else if r = 0 then STROKE else INTERIOR)"

text \<open>
  An object mask: a well-formed buffer whose pixels are \<open>(0, 0, 0, 255)\<close> or
  \<open>(255, 255, 255, 255)\<close>, as \<^verbatim>\<open>findObjectContours\<close> builds it.
\<close>

definition isObjectMask :: "ImageData \<Rightarrow> bool" where
  "isObjectMask m \<longleftrightarrow> wellFormed m \<and>
     list_all (\<lambda>k. pixelAt m (coordOf (width m) k) = (0, 0, 0, 255) \<or>
                   pixelAt m (coordOf (width m) k) = (255, 255, 255, 255))
       [0..<width m * height m]"

definition interiorSet :: "ImageData \<Rightarrow> coord set" where
  "interiorSet m = {q. inBounds (width m) (height m) q \<and> classOf (pixelAt m q) = INTERIOR}"

definition cornerList :: "ImageData \<Rightarrow> coord list" where
  "cornerList m = [(0, 0), (int (width m) - 1, 0), (0, int (height m) - 1),
     (int (width m) - 1, int (height m) - 1)]"

lemma width_floodFill [simp]: "width (floodFill img sx sy) = width img"
  by (simp add: floodFill_def Let_def)

lemma height_floodFill [simp]: "height (floodFill img sx sy) = height img"
  by (simp add: floodFill_def Let_def)

lemma fold_floodFill_after:
  "length d0 = 4 * (width img * height img) \<Longrightarrow>
   data img = paint fillColor (width img) (Reach (whiteSet (width img) (height img) d0) S) d0 \<Longrightarrow>
   fold (\<lambda>(x, y) i. floodFill i x y) seeds img =
     img\<lparr>data := paint fillColor (width img)
       (Reach (whiteSet (width img) (height img) d0) (S \<union> set seeds)) d0\<rparr>"
proof (induction seeds arbitrary: img S)
  case Nil
  then show ?case by simp
next
  case (Cons s seeds)
  obtain sx sy where s: "s = (sx, sy)" by (cases s)
  let ?W = "whiteSet (width img) (height img) d0"
  define img' where "img' = floodFill img sx sy"
  have img': "img' = img\<lparr>data := paint fillColor (width img) (Reach ?W (S \<union> {s})) d0\<rparr>"
    unfolding img'_def s using Cons.prems by (rule floodFill_after)
  have wh: "width img' = width img" "height img' = height img"
    by (simp_all add: img'_def)
  have "fold (\<lambda>(x, y) i. floodFill i x y) seeds img' =
     img'\<lparr>data := paint fillColor (width img')
       (Reach (whiteSet (width img') (height img') d0) ((S \<union> {s}) \<union> set seeds)) d0\<rparr>"
    using Cons.prems(1) by (intro Cons.IH) (simp_all add: wh, simp add: img')
  also have "\<dots> = img\<lparr>data := paint fillColor (width img)
       (Reach ?W (S \<union> set (s # seeds))) d0\<rparr>"
    by (simp add: wh img' Un_assoc)
  finally show ?case
    by (simp add: s img'_def)
qed

lemma fold_floodFill_paint:
  assumes "wellFormed m"
  shows "fold (\<lambda>(x, y) i. floodFill i x y) seeds m =
     m\<lparr>data := paint fillColor (width m)
       (Reach (whiteSet (width m) (height m) (data m)) (set seeds)) (data m)\<rparr>"
  using fold_floodFill_after [of "data m" m "{}" seeds] assms
  by (simp add: wellFormed_def)

lemma fillCorners_fold: "fillCorners m = fold (\<lambda>(x, y) i. floodFill i x y) (cornerList m) m"
  by (simp add: fillCorners_def cornerList_def Let_def)

lemma fillCorners_paint:
  assumes "wellFormed m"
  shows "fillCorners m =
     m\<lparr>data := paint fillColor (width m)
       (Reach (whiteSet (width m) (height m) (data m)) (set (cornerList m))) (data m)\<rparr>"
  unfolding fillCorners_fold using assms by (rule fold_floodFill_paint)

lemma isWhite_pixelOf:
  assumes len: "length d = 4 * (w * h)" and p: "inBounds w h p"
  shows "isWhite d (pixelIndex w p * 4) \<longleftrightarrow>
     (case pixelOf w d p of (r, g, b, a) \<Rightarrow> r = 255 \<and> g = 255 \<and> b = 255)"
  using rd_pixel [OF len p, of 0] rd_pixel [OF len p, of 1] rd_pixel [OF len p, of 2]
  by (simp add: isWhite_def pixelOf_def Let_def)

lemma objectMask_pixel:
  assumes "isObjectMask m" and p: "inBounds (width m) (height m) p"
  shows "pixelAt m p = (0, 0, 0, 255) \<or> pixelAt m p = (255, 255, 255, 255)"
proof -
  let ?k = "nat (pixelIndex (width m) p)"
  have "?k \<in> set [0..<width m * height m]"
    using pixelIndex_less [OF p] by simp
  with assms(1) have "pixelAt m (coordOf (width m) ?k) = (0, 0, 0, 255) \<or>
      pixelAt m (coordOf (width m) ?k) = (255, 255, 255, 255)"
    unfolding isObjectMask_def list_all_iff by blast
  then show ?thesis
    by (simp only: coordOf_pixelIndex [OF p])
qed

lemma objectMask_whiteSet:
  assumes "isObjectMask m"
  shows "whiteSet (width m) (height m) (data m) = interiorSet m"
proof (rule set_eqI)
  fix p
  from assms have len: "length (data m) = 4 * (width m * height m)"
    by (simp add: isObjectMask_def wellFormed_def)
  show "p \<in> whiteSet (width m) (height m) (data m) \<longleftrightarrow> p \<in> interiorSet m"
  proof (cases "inBounds (width m) (height m) p")
    case True
    from objectMask_pixel [OF assms True] isWhite_pixelOf [OF len True] True show ?thesis
      by (auto simp: whiteSet_def interiorSet_def pixelAt_def classOf_def)
  next
    case False
    then show ?thesis by (simp add: whiteSet_def interiorSet_def)
  qed
qed

lemma pixelAt_painted:
  assumes "length (data m) = 4 * (width m * height m)" and "inBounds (width m) (height m) p"
  shows "pixelAt (m\<lparr>data := paint col (width m) A (data m)\<rparr>) p =
     (if p \<in> A then col else pixelAt m p)"
  using pixelOf_paint [OF assms, of col A] by (simp add: pixelAt_def)

section \<open>The claims on the exterior filler\<close>

text \<open>
  C4.  On an object mask, after the four corner fills a pixel is EXTERIOR if and only if
  a path of pixels that were INTERIOR before the fills, each step to one of the four
  neighbours, joins it to one of the corners \<open>(0, 0)\<close>, \<open>(width - 1, 0)\<close>,
  \<open>(0, height - 1)\<close>, \<open>(width - 1, height - 1)\<close> (the pixel and the corner are on the path,
  so both were INTERIOR); an INTERIOR pixel with no such path keeps its bytes, and so
  does every STROKE pixel.
\<close>

theorem fillCorners_exterior_iff_connected:
  assumes "isObjectMask m" and "inBounds (width m) (height m) p"
  shows "(classOf (pixelAt (fillCorners m) p) = EXTERIOR \<longleftrightarrow>
            classOf (pixelAt m p) = INTERIOR \<and>
            (\<exists>c\<in>set (cornerList m). connected (interiorSet m) c p)) \<and>
         (classOf (pixelAt m p) = INTERIOR \<and>
            \<not> (\<exists>c\<in>set (cornerList m). connected (interiorSet m) c p) \<longrightarrow>
          pixelAt (fillCorners m) p = pixelAt m p) \<and>
         (classOf (pixelAt m p) = STROKE \<longrightarrow> pixelAt (fillCorners m) p = pixelAt m p)"
proof -
  let ?R = "Reach (interiorSet m) (set (cornerList m))"
  from assms(1) have wf: "wellFormed m" by (simp add: isObjectMask_def)
  then have len: "length (data m) = 4 * (width m * height m)"
    by (simp add: wellFormed_def)
  have "fillCorners m = m\<lparr>data := paint fillColor (width m) ?R (data m)\<rparr>"
    using fillCorners_paint [OF wf] by (simp only: objectMask_whiteSet [OF assms(1)])
  then have px: "pixelAt (fillCorners m) p = (if p \<in> ?R then fillColor else pixelAt m p)"
    using pixelAt_painted [OF len assms(2)] by simp
  have R: "p \<in> ?R \<longleftrightarrow> (\<exists>c\<in>set (cornerList m). connected (interiorSet m) c p)"
    by (simp add: Reach_def)
  have int: "classOf (pixelAt m p) = INTERIOR" if "p \<in> ?R"
    using that Reach_subset [of "interiorSet m"] by (auto simp: interiorSet_def)
  have notext: "classOf (pixelAt m p) \<noteq> EXTERIOR"
    using objectMask_pixel [OF assms] by (auto simp: classOf_def)
  have ext: "classOf fillColor = EXTERIOR"
    by (simp add: classOf_def fillColor_def)
  show ?thesis
    using px R int notext ext by auto
qed

text \<open>The object mask of \<open>ringDot\<close>: the ring and the dot in its middle.\<close>

definition ringDotMask :: ImageData where
  "ringDotMask = \<lparr>width = 7, height = 5,
     data = concat (map (\<lambda>b. if b then [0, 0, 0, 255] else [255, 255, 255, 255])
       [True, True, True, True, True, False, False,
        True, False, False, False, True, False, False,
        True, False, True, False, True, False, False,
        True, False, False, False, True, False, False,
        True, True, True, True, True, False, False])\<rparr>"

lemma findObjectContours_ringDot: "findObjectContours ringDot = ringDotMask"
  by code_simp

lemma isObjectMask_ringDotMask: "isObjectMask ringDotMask"
  by code_simp

lemma fillCorners_ringDotMask:
  "map (\<lambda>p. classOf (pixelAt (fillCorners ringDotMask) p)) [(5, 2), (1, 1), (0, 0)] =
     [EXTERIOR, INTERIOR, STROKE]"
  by code_simp

theorem fillCorners_exterior_iff_connected_witness:
  "isObjectMask ringDotMask \<and> inBounds (width ringDotMask) (height ringDotMask) (5, 2) \<and>
   (\<exists>c\<in>set (cornerList ringDotMask). connected (interiorSet ringDotMask) c (5, 2)) \<and>
   \<not> (\<exists>c\<in>set (cornerList ringDotMask). connected (interiorSet ringDotMask) c (1, 1)) \<and>
   classOf (pixelAt ringDotMask (1, 1)) = INTERIOR \<and>
   pixelAt (fillCorners ringDotMask) (1, 1) = pixelAt ringDotMask (1, 1) \<and>
   pixelAt (fillCorners ringDotMask) (0, 0) = pixelAt ringDotMask (0, 0)"
proof -
  note om = isObjectMask_ringDotMask
  have inb: "inBounds (width ringDotMask) (height ringDotMask) (5, 2)"
    "inBounds (width ringDotMask) (height ringDotMask) (1, 1)"
    "inBounds (width ringDotMask) (height ringDotMask) (0, 0)"
    by (simp_all add: inBounds_def ringDotMask_def)
  have after: "classOf (pixelAt (fillCorners ringDotMask) (5, 2)) = EXTERIOR"
    "classOf (pixelAt (fillCorners ringDotMask) (1, 1)) = INTERIOR"
    using fillCorners_ringDotMask by simp_all
  have before: "classOf (pixelAt ringDotMask (1, 1)) = INTERIOR"
    "classOf (pixelAt ringDotMask (0, 0)) = STROKE"
    by code_simp+
  from fillCorners_exterior_iff_connected [OF om inb(1)]
    fillCorners_exterior_iff_connected [OF om inb(2)]
    fillCorners_exterior_iff_connected [OF om inb(3)]
    om inb after before
  show ?thesis
    by simp
qed

text \<open>
  C5.  On a well-formed buffer: a second fill from the same seed changes nothing; the
  corner seeds in any order give the mask of \<^verbatim>\<open>process\<close>'s order; and a fill whose
  seed pixel is STROKE or EXTERIOR returns the mask as it is.
\<close>

theorem floodFill_idempotent_any_order:
  assumes "wellFormed m"
  shows "floodFill (floodFill m sx sy) sx sy = floodFill m sx sy \<and>
         (mset seeds = mset (cornerList m) \<longrightarrow>
            fold (\<lambda>(x, y) i. floodFill i x y) seeds m = fillCorners m) \<and>
         fillCorners (fillCorners m) = fillCorners m \<and>
         (inBounds (width m) (height m) (sx, sy) \<and>
          (classOf (pixelAt m (sx, sy)) = STROKE \<or> classOf (pixelAt m (sx, sy)) = EXTERIOR) \<longrightarrow>
            floodFill m sx sy = m)"
proof -
  let ?ff = "\<lambda>(x, y) i. floodFill i x y"
  from assms have len: "length (data m) = 4 * (width m * height m)"
    by (simp add: wellFormed_def)
  have "floodFill (floodFill m sx sy) sx sy = fold ?ff [(sx, sy), (sx, sy)] m"
    by simp
  also have "\<dots> = fold ?ff [(sx, sy)] m"
    by (simp only: fold_floodFill_paint [OF assms]) simp
  finally have twice: "floodFill (floodFill m sx sy) sx sy = floodFill m sx sy"
    by simp
  have order: "fold ?ff seeds m = fillCorners m" if "mset seeds = mset (cornerList m)"
  proof -
    from that have "set seeds = set (cornerList m)"
      by (rule mset_eq_setD)
    then show ?thesis
      by (simp only: fillCorners_fold fold_floodFill_paint [OF assms])
  qed
  have "fillCorners (fillCorners m) = fold ?ff (cornerList m @ cornerList m) m"
    by (simp add: fillCorners_fold cornerList_def)
  also have "\<dots> = fillCorners m"
    by (simp only: fillCorners_fold fold_floodFill_paint [OF assms]) simp
  finally have again: "fillCorners (fillCorners m) = fillCorners m" .
  have noop: "floodFill m sx sy = m"
    if inb: "inBounds (width m) (height m) (sx, sy)"
      and cls: "classOf (pixelAt m (sx, sy)) = STROKE \<or> classOf (pixelAt m (sx, sy)) = EXTERIOR"
  proof -
    let ?i = "(sy * int (width m) + sx) * 4"
    have r: "rd (data m) ?i = Some (data m ! (4 * nat (pixelIndex (width m) (sx, sy))))"
      "rd (data m) (?i + 1) = Some (data m ! (4 * nat (pixelIndex (width m) (sx, sy)) + 1))"
      using rd_pixel [OF len inb, of 0] rd_pixel [OF len inb, of 1]
      by (simp_all add: pixelIndex_def)
    from cls have "rd (data m) ?i = Some 0 \<or>
        (rd (data m) ?i = Some 255 \<and> rd (data m) (?i + 1) = Some 0)"
      unfolding r by (auto simp: classOf_def pixelAt_def pixelOf_def Let_def split: if_splits)
    then show ?thesis
      unfolding floodFill_def Let_def by (rule if_P)
  qed
  from twice order again noop show ?thesis
    by blast
qed

theorem floodFill_idempotent_any_order_witness:
  "wellFormed ringDotMask \<and>
   floodFill (floodFill ringDotMask 6 4) 6 4 = floodFill ringDotMask 6 4 \<and>
   fold (\<lambda>(x, y) i. floodFill i x y) [(6, 4), (0, 4), (6, 0), (0, 0)] ringDotMask =
     fillCorners ringDotMask \<and>
   fillCorners (fillCorners ringDotMask) = fillCorners ringDotMask \<and>
   classOf (pixelAt ringDotMask (0, 0)) = STROKE \<and>
   floodFill ringDotMask 0 0 = ringDotMask"
proof -
  have wf: "wellFormed ringDotMask"
    by (simp add: wellFormed_def ringDotMask_def)
  have ms: "mset [(6, 4), (0, 4), (6, 0), (0, 0)] = mset (cornerList ringDotMask)"
    by (simp add: cornerList_def ringDotMask_def)
  have inb: "inBounds (width ringDotMask) (height ringDotMask) (0, 0)"
    by (simp add: inBounds_def ringDotMask_def)
  have st: "classOf (pixelAt ringDotMask (0, 0)) = STROKE"
    by code_simp
  from floodFill_idempotent_any_order [OF wf, of 6 4 "[(6, 4), (0, 4), (6, 0), (0, 0)]"]
    floodFill_idempotent_any_order [OF wf, of 0 0 "[]"] wf ms inb st
  show ?thesis
    by simp
qed


section \<open>The two pixel-by-pixel passes\<close>

text \<open>
  \<^verbatim>\<open>createMask\<close> and the compositor of \<^verbatim>\<open>process\<close> have the same shape: for
  \<open>i = 0, 4, 8, \<dots>\<close> below the length of the source, write at \<open>i\<close> of the result a
  colour read off the source at \<open>i\<close>.  \<open>pixelPass\<close> is that shape, for the proofs.
\<close>

function pixelPass ::
  "(byte list \<Rightarrow> nat \<Rightarrow> byte \<times> byte \<times> byte \<times> byte) \<Rightarrow> byte list \<Rightarrow> nat \<Rightarrow> byte list \<Rightarrow> byte list" where
  "pixelPass f src i res =
     (if i < length src then pixelPass f src (i + 4) (setPixelData res (int i) (f src i)) else res)"
  by pat_completeness auto
termination
  by (relation "measure (\<lambda>(f, src, i, res). length src - i)") auto

declare pixelPass.simps [simp del]

definition maskColor :: "byte list \<Rightarrow> nat \<Rightarrow> byte \<times> byte \<times> byte \<times> byte" where
  "maskColor d i =
     (if isDark (rd d (int i)) (rd d (int i + 1)) (rd d (int i + 2))
      then (0, 0, 0, 255) else (255, 255, 255, 255))"


lemma createMaskLoop_pixelPass: "createMaskLoop d i m = pixelPass maskColor d i m"
proof (induction d i m rule: createMaskLoop.induct)
  case (1 d i m)
  show ?case
  proof (cases "i < length d")
    case True
    let ?m' = "if isDark (rd d (int i)) (rd d (int i + 1)) (rd d (int i + 2))
           then setPixelData m (int i) (0, 0, 0, 255)
           else setPixelData m (int i) (255, 255, 255, 255)"
    have e: "?m' = setPixelData m (int i) (maskColor d i)"
      by (simp add: maskColor_def)
    have "createMaskLoop d i m = createMaskLoop d (i + 4) ?m'"
      using True by (subst createMaskLoop.simps) simp
    also have "\<dots> = pixelPass maskColor d (i + 4) ?m'"
      by (rule "1.IH" [OF True])
    also have "\<dots> = pixelPass maskColor d (i + 4) (setPixelData m (int i) (maskColor d i))"
      by (simp only: e)
    also have "\<dots> = pixelPass maskColor d i m"
      using True by (subst (2) pixelPass.simps) simp
    finally show ?thesis .
  next
    case False
    then show ?thesis
      by (subst createMaskLoop.simps, subst pixelPass.simps) simp
  qed
qed


lemma length_pixelPass [simp]: "length (pixelPass f src i res) = length res"
proof (induction f src i res rule: pixelPass.induct)
  case (1 f src i res)
  then show ?case
    by (subst pixelPass.simps) simp
qed

lemma nth_pixelPass:
  "i = 4 * k \<Longrightarrow> length src = 4 * n \<Longrightarrow> length res = 4 * n \<Longrightarrow> j < 4 * n \<Longrightarrow>
     pixelPass f src i res ! j =
       (if i \<le> j then colorAt (f src (4 * (j div 4))) (j mod 4) else res ! j)"
proof (induction f src i res arbitrary: k rule: pixelPass.induct)
  case (1 f src i res)
  show ?case
  proof (cases "i < length src")
    case True
    define res' where "res' = setPixelData res (int i) (f src i)"
    define c where "c = f src i"
    from True "1.prems" have k: "4 * k + 3 < length res" by simp
    have res': "res' ! j = (if j div 4 = k then colorAt c (j mod 4) else res ! j)"
      using nth_setPixelData [OF k, of "f src i" j] "1.prems"(1)
      by (simp add: mult.commute res'_def c_def)
    have c: "f src (4 * (j div 4)) = c" if "j div 4 = k"
      using that "1.prems"(1) by (simp add: c_def)
    have "pixelPass f src i res ! j = pixelPass f src (i + 4) res' ! j"
      using True by (subst pixelPass.simps) (simp add: res'_def)
    also have "\<dots> = (if i + 4 \<le> j then colorAt (f src (4 * (j div 4))) (j mod 4) else res' ! j)"
      unfolding res'_def using "1.prems" by (intro "1.IH" [OF True, of "Suc k"]) simp_all
    also have "\<dots> = (if i \<le> j then colorAt (f src (4 * (j div 4))) (j mod 4) else res ! j)"
    proof (cases "i + 4 \<le> j")
      case True
      then show ?thesis by simp
    next
      case False
      show ?thesis
      proof (cases "i \<le> j")
        case True
        with False "1.prems"(1) have jk: "j div 4 = k" by simp
        have "f src (4 * (j div 4)) = c" using jk by (rule c)
        with True False jk show ?thesis by (simp add: res')
      next
        case False
        with "1.prems"(1) have "j div 4 \<noteq> k" by auto
        with False show ?thesis by (simp add: res')
      qed
    qed
    finally show ?thesis .
  next
    case False
    with "1.prems" show ?thesis
      by (subst pixelPass.simps) simp
  qed
qed

lemma pixelOf_pixelPass:
  assumes "length src = 4 * (w * h)" and "length res = 4 * (w * h)" and "inBounds w h p"
  shows "pixelOf w (pixelPass f src 0 res) p = f src (4 * nat (pixelIndex w p))"
proof -
  let ?k = "nat (pixelIndex w p)"
  have lt: "4 * ?k + m < 4 * (w * h)" if "m < 4" for m
    using pixelIndex_less [OF assms(3)] that by simp
  have "pixelPass f src 0 res ! (4 * ?k + m) = colorAt (f src (4 * ?k)) m" if "m < 4" for m
    using nth_pixelPass [of 0 0 src "w * h" res "4 * ?k + m" f] assms(1,2) lt [OF that] that
    by simp
  from this [of 0] this [of 1] this [of 2] this [of 3] show ?thesis
    by (cases "f src (4 * ?k)") (simp add: pixelOf_def Let_def colorAt_def)
qed

section \<open>The claim on the thresholder\<close>

lemma createMask_fields [simp]:
  "width (createMask img) = width img" "height (createMask img) = height img"
  "length (data (createMask img)) = 4 * (width img * height img)"
  by (simp_all add: createMask_def Let_def newImageData_def createMaskLoop_pixelPass)

lemma pixelAt_createMask:
  assumes wf: "wellFormed img" and p: "inBounds (width img) (height img) p"
  shows "pixelAt (createMask img) p =
     (case pixelAt img p of (r, g, b, a) \<Rightarrow>
        if luminance r g b < 100 then (0, 0, 0, 255) else (255, 255, 255, 255))"
proof -
  let ?w = "width img" and ?h = "height img" and ?d = "data img"
  let ?k = "nat (pixelIndex ?w p)"
  from wf have len: "length ?d = 4 * (?w * ?h)"
    by (simp add: wellFormed_def)
  have "pixelAt (createMask img) p = pixelOf ?w (pixelPass maskColor ?d 0 (replicate (4 * (?w * ?h)) 0)) p"
    by (simp add: pixelAt_def createMask_def Let_def newImageData_def createMaskLoop_pixelPass)
  also have "\<dots> = maskColor ?d (4 * ?k)"
    using len p by (intro pixelOf_pixelPass [where h = ?h]) simp_all
  finally have 1: "pixelAt (createMask img) p = maskColor ?d (4 * ?k)" .
  have i: "int (4 * ?k) = pixelIndex ?w p * 4"
    using pixelIndex_nonneg [OF p] by simp
  have r: "rd ?d (int (4 * ?k)) = Some (?d ! (4 * ?k))"
    "rd ?d (int (4 * ?k) + 1) = Some (?d ! (4 * ?k + 1))"
    "rd ?d (int (4 * ?k) + 2) = Some (?d ! (4 * ?k + 2))"
    using rd_pixel [OF len p, of 0] rd_pixel [OF len p, of 1] rd_pixel [OF len p, of 2]
    unfolding i by simp_all
  show ?thesis
    unfolding 1 maskColor_def r by (simp add: isDark_def pixelAt_def pixelOf_def Let_def)
qed

text \<open>
  The luminance of the spec's sentence, in exact arithmetic:
  \<open>0.2126 R + 0.7152 G + 0.0722 B\<close>.
\<close>

definition exactLuminance :: "byte \<Rightarrow> byte \<Rightarrow> byte \<Rightarrow> rat" where
  "exactLuminance r g b =
     2126 / 10000 * of_nat (unat r) + 7152 / 10000 * of_nat (unat g) + 722 / 10000 * of_nat (unat b)"

text \<open>A 1\<times>1 image whose exact luminance is 100.\<close>

definition edgePixel :: ImageData where
  "edgePixel = \<lparr>width = 1, height = 1, data = [4, 114, 244, 255]\<rparr>"

lemma luminance_edge: "luminance 4 114 244 < 100"
  by code_simp

lemma pixelAt_edgePixel: "pixelAt edgePixel (0, 0) = (4, 114, 244, 255)"
  by (simp add: edgePixel_def pixelAt_def pixelOf_def pixelIndex_def)

lemma edgePixel_ok: "wellFormed edgePixel" "inBounds (width edgePixel) (height edgePixel) (0, 0)"
  by (simp_all add: edgePixel_def wellFormed_def inBounds_def)

text \<open>
  C6, as the spec states it, with the luminance in exact arithmetic: STROKE exactly when
  \<open>0.2126 R + 0.7152 G + 0.0722 B < 100\<close>.  The pixel \<open>(4, 114, 244)\<close> has luminance
  exactly 100, which is not below 100, and \<^verbatim>\<open>createMask\<close> writes STROKE: the three
  products and two sums, each rounded to a double, give \<open>99.99999999999999\<close>.
\<close>

theorem createMask_exact_threshold_counterexample:
  "exactLuminance 4 114 244 = 100 \<and> \<not> exactLuminance 4 114 244 < 100 \<and>
   pixelAt (createMask edgePixel) (0, 0) = (0, 0, 0, 255)"
proof -
  have "exactLuminance 4 114 244 = 100"
    by (simp add: exactLuminance_def)
  moreover have "pixelAt (createMask edgePixel) (0, 0) = (0, 0, 0, 255)"
    using pixelAt_createMask [OF edgePixel_ok] luminance_edge
    by (simp add: pixelAt_edgePixel)
  ultimately show ?thesis by simp
qed

text \<open>
  C6, amended.  For every RGBA buffer, at every pixel position the thresholder writes
  STROKE \<open>(0, 0, 0, 255)\<close> exactly when \<^verbatim>\<open>0.2126 * r + 0.7152 * g + 0.0722 * b\<close>,
  evaluated in double precision from left to right, is below 100, and
  \<open>(255, 255, 255, 255)\<close> otherwise; the mask has the width and the height of the input,
  and depends on nothing but the input buffer.
\<close>

theorem createMask_threshold:
  assumes "wellFormed img" and "inBounds (width img) (height img) p"
  shows "width (createMask img) = width img \<and> height (createMask img) = height img \<and>
    wellFormed (createMask img) \<and>
    pixelAt (createMask img) p =
      (case pixelAt img p of (r, g, b, a) \<Rightarrow>
         if luminance r g b < 100 then (0, 0, 0, 255) else (255, 255, 255, 255))"
  using pixelAt_createMask [OF assms] by (simp add: wellFormed_def)

theorem createMask_threshold_witness:
  "wellFormed edgePixel \<and> inBounds (width edgePixel) (height edgePixel) (0, 0) \<and>
   luminance 4 114 244 < 100 \<and>
   wellFormed (createMask edgePixel) \<and>
   pixelAt (createMask edgePixel) (0, 0) = (0, 0, 0, 255)"
  using createMask_threshold [OF edgePixel_ok] edgePixel_ok luminance_edge
  by (simp add: pixelAt_edgePixel)

section \<open>A mask without strokes\<close>














lemma luminance_white: "\<not> luminance 255 255 255 < 100"
  by code_simp



section \<open>The ring scenario\<close>

lemma luminance_black: "luminance 0 0 0 < 100"
  by (simp add: luminance_def fl_def)

lemma pixels_eq:
  assumes d: "length d = 4 * (w * h)" and e: "length e = 4 * (w * h)"
    and eq: "\<And>p. inBounds w h p \<Longrightarrow> pixelOf w d p = pixelOf w e p"
  shows "d = e"
proof (rule nth_equalityI)
  show "length d = length e" using d e by simp
next
  fix j assume "j < length d"
  with d have j: "j < 4 * (w * h)" by simp
  let ?k = "j div 4"
  from j have k: "?k < w * h" by simp
  have inb: "inBounds w h (coordOf w ?k)"
    using k by (rule inBounds_coordOf)
  have "nat (pixelIndex w (coordOf w ?k)) = ?k"
    by (simp add: pixelIndex_coordOf)
  with eq [OF inb] have q: "d ! (4 * ?k) = e ! (4 * ?k)" "d ! (4 * ?k + 1) = e ! (4 * ?k + 1)"
    "d ! (4 * ?k + 2) = e ! (4 * ?k + 2)" "d ! (4 * ?k + 3) = e ! (4 * ?k + 3)"
    by (simp_all add: pixelOf_def Let_def)
  have "j = 4 * ?k \<or> j = 4 * ?k + 1 \<or> j = 4 * ?k + 2 \<or> j = 4 * ?k + 3"
    by arith
  with q show "d ! j = e ! j"
    by metis
qed

text \<open>A mask of black and white pixels is its own binary mask.\<close>

lemma createMask_binary:
  assumes "isObjectMask img"
  shows "createMask img = img"
proof -
  let ?w = "width img" and ?h = "height img"
  from assms have wf: "wellFormed img"
    by (simp add: isObjectMask_def)
  then have len: "length (data img) = 4 * (?w * ?h)"
    by (simp add: wellFormed_def)
  have "pixelOf ?w (data (createMask img)) p = pixelOf ?w (data img) p" if "inBounds ?w ?h p" for p
    using pixelAt_createMask [OF wf that] objectMask_pixel [OF assms that]
      luminance_black luminance_white
    by (auto simp: pixelAt_def)
  then have "data (createMask img) = data img"
    using len by (intro pixels_eq [where w = ?w and h = ?h]) simp_all
  then show ?thesis
    by (cases img) (simp add: createMask_def Let_def newImageData_def)
qed

definition onRing :: "nat \<Rightarrow> nat \<Rightarrow> bool" where
  "onRing x y \<longleftrightarrow>
     2 \<le> x \<and> x \<le> 7 \<and> 2 \<le> y \<and> y \<le> 7 \<and> (x = 2 \<or> x = 7 \<or> y = 2 \<or> y = 7)"

definition insideRing :: "nat \<Rightarrow> nat \<Rightarrow> bool" where
  "insideRing x y \<longleftrightarrow> 3 \<le> x \<and> x \<le> 6 \<and> 3 \<le> y \<and> y \<le> 6"

text \<open>
  The 10\<times>10 image of scenario B, row after row: black \<open>(0, 0, 0, 255)\<close> on the ring,
  white \<open>(255, 255, 255, 255)\<close> elsewhere.
\<close>

definition ringImage :: ImageData where
  "ringImage = \<lparr>width = 10, height = 10,
     data = concat (map (\<lambda>k. if onRing (k mod 10) (k div 10) then [0, 0, 0, 255]
                               else [255, 255, 255, 255]) [0..<100])\<rparr>"

definition ringFilled :: "byte list" where
  "ringFilled = concat (map (\<lambda>k.
       if onRing (k mod 10) (k div 10) then [0, 0, 0, 255]
       else if insideRing (k mod 10) (k div 10) then [255, 255, 255, 255]
       else [255, 0, 0, 255]) [0..<100])"

definition ringExpected :: "byte list" where
  "ringExpected = concat (map (\<lambda>k.
       if onRing (k mod 10) (k div 10) then [0, 0, 0, 255]
       else if insideRing (k mod 10) (k div 10) then [255, 255, 255, 255]
       else [0, 0, 0, 0]) [0..<100])"

lemma isObjectMask_ringImage: "isObjectMask ringImage"
  by code_simp

lemma findObjectContours_ringImage: "findObjectContours ringImage = ringImage"
  by code_simp

lemma fillCorners_ringImage:
  "fillCorners ringImage = \<lparr>width = 10, height = 10, data = ringFilled\<rparr>"
  by code_simp

lemma composeLoop_ringFilled: "composeLoop ringFilled 0 (replicate 400 0) = ringExpected"
  by code_simp

text \<open>
  C7.  On the 10\<times>10 image that is black exactly on the one-pixel-wide square ring of
  rows and columns 2..7 and white elsewhere, the pipeline gives \<open>(0, 0, 0, 255)\<close> on the
  ring, \<open>(255, 255, 255, 255)\<close> strictly inside it (rows and columns 3..6) and
  \<open>(0, 0, 0, 0)\<close> outside.
\<close>

theorem ring_scenario:
  "processCore ringImage = \<lparr>width = 10, height = 10, data = ringExpected\<rparr>"
proof -
  have wh: "width ringImage = 10" "height ringImage = 10"
    by (simp_all add: ringImage_def)
  have "createMask ringImage = ringImage"
    using isObjectMask_ringImage by (rule createMask_binary)
  then have "fillCorners (findObjectContours (createMask ringImage)) =
      \<lparr>width = 10, height = 10, data = ringFilled\<rparr>"
    by (simp only: findObjectContours_ringImage fillCorners_ringImage)
  then show ?thesis
    by (simp add: processCore_def Let_def newImageData_def wh composeLoop_ringFilled)
qed



section \<open>Accesses within the buffers\<close>

text \<open>
  The flood-fill loop and the labeling scan once more, with every read and write of
  \<^verbatim>\<open>data\<close> and \<^verbatim>\<open>visited\<close> checked against the length of the array: the result is
  \<open>None\<close> as soon as one index is outside.  The tests come in the order of the source
  (\<^verbatim>\<open>&&\<close> reads its right operand only when the left one holds), and nothing else is
  changed.
\<close>

definition inRange :: "byte list \<Rightarrow> int \<Rightarrow> bool" where
  "inRange d i \<longleftrightarrow> 0 \<le> i \<and> i < int (length d)"

primrec foldChecked :: "('a \<Rightarrow> 's \<Rightarrow> 's option) \<Rightarrow> 'a list \<Rightarrow> 's \<Rightarrow> 's option" where
  "foldChecked f [] s = Some s"
| "foldChecked f (x # xs) s = (case f x s of None \<Rightarrow> None | Some s' \<Rightarrow> foldChecked f xs s')"

lemma fill_measure:
  assumes "rd d i = Some 255" and "rd d (i + 1) = Some 255" and "rd d (i + 2) = Some 255"
  shows "3 + 4 * fulls (setPixelData d i fillColor) < 4 * fulls d"
proof -
  from assms have "isWhite d i" by (simp add: isWhite_def)
  from fulls_fill [OF this] show ?thesis by simp
qed

function floodLoopChecked :: "nat \<Rightarrow> nat \<Rightarrow> coord list \<Rightarrow> byte list \<Rightarrow> byte list option" where
  "floodLoopChecked w h [] d = Some d"
| "floodLoopChecked w h ((x, y) # stack) d =
     (if x < 0 \<or> int w \<le> x \<or> y < 0 \<or> int h \<le> y then floodLoopChecked w h stack d
      else if \<not> inRange d ((y * int w + x) * 4) then None
      else if rd d ((y * int w + x) * 4) \<noteq> Some 255 then floodLoopChecked w h stack d
      else if \<not> inRange d ((y * int w + x) * 4 + 1) then None
      else if rd d ((y * int w + x) * 4 + 1) \<noteq> Some 255 then floodLoopChecked w h stack d
      else if \<not> inRange d ((y * int w + x) * 4 + 2) then None
      else if rd d ((y * int w + x) * 4 + 2) \<noteq> Some 255 then floodLoopChecked w h stack d
      else if \<not> (inRange d ((y * int w + x) * 4) \<and> inRange d ((y * int w + x) * 4 + 1) \<and>
                inRange d ((y * int w + x) * 4 + 2) \<and> inRange d ((y * int w + x) * 4 + 3))
        then None
      else floodLoopChecked w h ((x, y - 1) # (x, y + 1) # (x - 1, y) # (x + 1, y) # stack)
             (setPixelData d ((y * int w + x) * 4) fillColor))"
  by pat_completeness auto
termination
  by (relation "measure (\<lambda>(w, h, stack, d). 4 * fulls d + length stack)")
    (auto intro: fill_measure)

definition visitNeighborChecked ::
  "nat \<Rightarrow> nat \<Rightarrow> byte list \<Rightarrow> coord \<Rightarrow> byte list \<times> coord list \<Rightarrow> (byte list \<times> coord list) option" where
  "visitNeighborChecked w h d n s =
     (case n of (nx, ny) \<Rightarrow> case s of (visited, stack) \<Rightarrow>
        if 0 \<le> nx \<and> nx < int w \<and> 0 \<le> ny \<and> ny < int h then
          (let nIdx = ny * int w + nx in
           if \<not> inRange d (nIdx * 4) then None
           else if rd d (nIdx * 4) \<noteq> Some 0 then Some (visited, stack)
           else if \<not> inRange visited nIdx then None
           else if rd visited nIdx \<noteq> Some 0 then Some (visited, stack)
           else Some (wr visited nIdx 1, n # stack))
        else Some (visited, stack))"

lemma visitNeighborChecked_Some:
  "visitNeighborChecked w h d n s = Some s' \<Longrightarrow> s' = visitNeighbor w h d n s"
  by (cases n; cases s)
    (auto simp: visitNeighborChecked_def visitNeighbor_def Let_def split: if_splits)

lemma foldChecked_visitNeighbor_Some:
  "foldChecked (visitNeighborChecked w h d) ns s = Some s' \<Longrightarrow>
     s' = fold (visitNeighbor w h d) ns s"
proof (induction ns arbitrary: s)
  case Nil
  then show ?case by simp
next
  case (Cons n ns)
  then obtain s1 where 1: "visitNeighborChecked w h d n s = Some s1"
    and 2: "foldChecked (visitNeighborChecked w h d) ns s1 = Some s'"
    by (auto split: option.splits)
  from 1 have "s1 = visitNeighbor w h d n s" by (rule visitNeighborChecked_Some)
  with Cons.IH [OF 2] show ?case by simp
qed

function labelLoopChecked ::
  "nat \<Rightarrow> nat \<Rightarrow> byte list \<Rightarrow> coord list \<Rightarrow> byte list \<Rightarrow> Component \<Rightarrow> (byte list \<times> Component) option" where
  "labelLoopChecked w h d [] visited cmp = Some (visited, cmp)"
| "labelLoopChecked w h d (c # stack) visited cmp =
     (case foldChecked (visitNeighborChecked w h d) (neighbors c) (visited, stack) of
        None \<Rightarrow> None
      | Some (visited', stack') \<Rightarrow> labelLoopChecked w h d stack' visited' (addPixel cmp c))"
  by pat_completeness auto
termination
proof (relation "measure (\<lambda>(w, h, d, stack, visited, cmp). 2 * zeros visited + length stack)",
    goal_cases)
  case 1
  then show ?case by simp
next
  case (2 w h d c stack visited cmp s' visited' stack')
  then have "foldChecked (visitNeighborChecked w h d) (neighbors c) (visited, stack)
      = Some (visited', stack')"
    by simp
  then have "fold (visitNeighbor w h d) (neighbors c) (visited, stack) = (visited', stack')"
    by (rule foldChecked_visitNeighbor_Some [symmetric])
  from fold_visitNeighbor_measure [OF this] show ?case
    by simp
qed

definition scanPixelChecked ::
  "ImageData \<Rightarrow> int \<Rightarrow> int \<Rightarrow> byte list \<times> Component list \<Rightarrow> (byte list \<times> Component list) option" where
  "scanPixelChecked imageData y x s =
     (case s of (visited, components) \<Rightarrow>
        (let w = width imageData; h = height imageData; d = data imageData;
             idx = y * int w + x in
         if \<not> inRange d (idx * 4) then None
         else if rd d (idx * 4) \<noteq> Some 0 then Some (visited, components)
         else if \<not> inRange visited idx then None
         else if rd visited idx \<noteq> Some 0 then Some (visited, components)
         else (case labelLoopChecked w h d [(x, y)] (wr visited idx 1)
                      \<lparr>pixels = [], minX = int w, minY = int h, maxX = - 1, maxY = - 1\<rparr> of
                 None \<Rightarrow> None
               | Some (visited', cmp) \<Rightarrow> Some (visited', components @ [cmp]))))"

definition labelComponentsChecked :: "ImageData \<Rightarrow> Component list option" where
  "labelComponentsChecked imageData =
     map_option snd
       (foldChecked
          (\<lambda>y. foldChecked (\<lambda>x. scanPixelChecked imageData (int y) (int x)) [0..<width imageData])
          [0..<height imageData]
          (replicate (width imageData * height imageData) 0, []))"

lemma inRange_pixel:
  assumes "length d = 4 * (w * h)" and "inBounds w h p" and "m < 4"
  shows "inRange d (pixelIndex w p * 4 + int m)"
  using rd_pixel [OF assms] by (auto simp: rd_def inRange_def split: if_splits)

lemma inRange_visited:
  assumes "length v = w * h" and "inBounds w h p"
  shows "inRange v (pixelIndex w p)"
  using pixelIndex_nonneg [OF assms(2)] pixelIndex_less [OF assms(2)] assms(1)
  by (simp add: inRange_def nat_less_iff)

lemma floodLoopChecked_safe:
  "length d = 4 * (w * h) \<Longrightarrow> floodLoopChecked w h stack d = Some (floodLoop w h stack d)"
proof (induction w h stack d rule: floodLoop.induct)
  case (1 w h d)
  then show ?case by simp
next
  case (2 w h x y stack d)
  let ?i = "(y * int w + x) * 4"
  show ?case
  proof (cases "x < 0 \<or> int w \<le> x \<or> y < 0 \<or> int h \<le> y")
    case True
    with "2.IH"(1) [OF True "2.prems"] show ?thesis by simp
  next
    case False
    then have inb: "inBounds w h (x, y)"
      by (auto simp: inBounds_def)
    have r: "inRange d ?i" "inRange d (?i + 1)" "inRange d (?i + 2)" "inRange d (?i + 3)"
      using inRange_pixel [OF "2.prems" inb, of 0] inRange_pixel [OF "2.prems" inb, of 1]
        inRange_pixel [OF "2.prems" inb, of 2] inRange_pixel [OF "2.prems" inb, of 3]
      by (simp_all add: pixelIndex_def)
    show ?thesis
    proof (cases "isWhite d ?i")
      case True
      have "length (setPixelData d ?i fillColor) = 4 * (w * h)"
        using "2.prems" by simp
      from "2.IH"(2) [OF False True this] False True r show ?thesis
        by (simp add: isWhite_def)
    next
      case white: False
      from "2.IH"(3) [OF False white "2.prems"] False white r show ?thesis
        by (auto simp: isWhite_def)
    qed
  qed
qed

lemma foldChecked_fold:
  assumes "\<And>x s. x \<in> set xs \<Longrightarrow> I s \<Longrightarrow> f x s = Some (g x s) \<and> I (g x s)" and "I s"
  shows "foldChecked f xs s = Some (fold g xs s) \<and> I (fold g xs s)"
  using assms
proof (induction xs arbitrary: s)
  case Nil
  then show ?case by simp
next
  case (Cons x xs)
  have 1: "f x s = Some (g x s)" "I (g x s)"
    using Cons.prems(1) [of x s] Cons.prems(2) by simp_all
  have "foldChecked f xs (g x s) = Some (fold g xs (g x s)) \<and> I (fold g xs (g x s))"
    using Cons.prems(1) 1(2) by (intro Cons.IH) simp_all
  with 1 show ?case by simp
qed

lemma visitNeighborChecked_safe:
  assumes "length d = 4 * (w * h)" and "length v = w * h"
  shows "visitNeighborChecked w h d n (v, st) = Some (visitNeighbor w h d n (v, st))"
proof -
  obtain nx ny where n: "n = (nx, ny)" by (cases n)
  show ?thesis
  proof (cases "0 \<le> nx \<and> nx < int w \<and> 0 \<le> ny \<and> ny < int h")
    case False
    then show ?thesis
      by (auto simp: visitNeighborChecked_def visitNeighbor_def n Let_def)
  next
    case True
    then have inb: "inBounds w h (nx, ny)" by (simp add: inBounds_def)
    have "inRange d ((ny * int w + nx) * 4)" "inRange v (ny * int w + nx)"
      using inRange_pixel [OF assms(1) inb, of 0] inRange_visited [OF assms(2) inb]
      by (simp_all add: pixelIndex_def)
    with True show ?thesis
      by (auto simp: visitNeighborChecked_def visitNeighbor_def n Let_def)
  qed
qed

lemma length_visitNeighbor: "length (fst (visitNeighbor w h d n s)) = length (fst s)"
  by (cases n; cases s) (simp add: visitNeighbor_def Let_def)

lemma foldChecked_visitNeighbor_safe:
  assumes "length d = 4 * (w * h)" and "length v = w * h"
  shows "foldChecked (visitNeighborChecked w h d) ns (v, st) =
      Some (fold (visitNeighbor w h d) ns (v, st)) \<and>
    length (fst (fold (visitNeighbor w h d) ns (v, st))) = w * h"
proof (rule foldChecked_fold [where I = "\<lambda>s. length (fst s) = w * h"])
  fix x and s :: "byte list \<times> coord list"
  assume "length (fst s) = w * h"
  then show "visitNeighborChecked w h d x s = Some (visitNeighbor w h d x s) \<and>
      length (fst (visitNeighbor w h d x s)) = w * h"
    using visitNeighborChecked_safe [OF assms(1), of "fst s" x "snd s"]
    by (simp add: length_visitNeighbor)
next
  show "length (fst (v, st)) = w * h" using assms(2) by simp
qed

lemma labelLoopChecked_safe:
  "length d = 4 * (w * h) \<Longrightarrow> length v = w * h \<Longrightarrow>
     labelLoopChecked w h d st v cmp = Some (labelLoop w h d st v cmp) \<and>
     length (fst (labelLoop w h d st v cmp)) = w * h"
proof (induction w h d st v cmp rule: labelLoop.induct)
  case (1 w h d visited cmp)
  then show ?case by simp
next
  case (2 w h d c stack visited cmp)
  obtain v1 st1 where f: "fold (visitNeighbor w h d) (neighbors c) (visited, stack) = (v1, st1)"
    by (cases "fold (visitNeighbor w h d) (neighbors c) (visited, stack)")
  from foldChecked_visitNeighbor_safe [OF "2.prems", of "neighbors c" stack] have
    fc: "foldChecked (visitNeighborChecked w h d) (neighbors c) (visited, stack) = Some (v1, st1)"
    and len1: "length v1 = w * h"
    by (simp_all add: f)
  from "2.IH" [OF f [symmetric] "2.prems"(1) len1] show ?case
    by (simp add: f fc)
qed

lemma scanPixelChecked_safe:
  assumes wf: "wellFormed img" and len: "length v = width img * height img"
    and inb: "inBounds (width img) (height img) (x, y)"
  shows "scanPixelChecked img y x (v, comps) = Some (scanPixel img y x (v, comps)) \<and>
    length (fst (scanPixel img y x (v, comps))) = width img * height img"
proof -
  let ?w = "width img" and ?h = "height img" and ?d = "data img"
  let ?idx = "y * int ?w + x"
  from wf have lend: "length ?d = 4 * (?w * ?h)" by (simp add: wellFormed_def)
  have r: "inRange ?d (?idx * 4)" "inRange v ?idx"
    using inRange_pixel [OF lend inb, of 0] inRange_visited [OF len inb]
    by (simp_all add: pixelIndex_def)
  let ?c0 = "\<lparr>pixels = [], minX = int ?w, minY = int ?h, maxX = - 1, maxY = - 1\<rparr>"
  have "length (wr v ?idx 1) = ?w * ?h" using len by simp
  from labelLoopChecked_safe [OF lend this, of "[(x, y)]" ?c0] have
    l: "labelLoopChecked ?w ?h ?d [(x, y)] (wr v ?idx 1) ?c0 =
        Some (labelLoop ?w ?h ?d [(x, y)] (wr v ?idx 1) ?c0)"
    and ll: "length (fst (labelLoop ?w ?h ?d [(x, y)] (wr v ?idx 1) ?c0)) = ?w * ?h"
    by simp_all
  show ?thesis
    using r l ll len
    by (auto simp: scanPixelChecked_def scanPixel_def Let_def split: prod.splits)
qed

lemma labelComponentsChecked_safe:
  assumes "wellFormed img"
  shows "labelComponentsChecked img = Some (labelComponents img)"
proof -
  let ?w = "width img" and ?h = "height img"
  let ?I = "\<lambda>s :: byte list \<times> Component list. length (fst s) = ?w * ?h"
  have row: "foldChecked (\<lambda>x. scanPixelChecked img (int y) (int x)) [0..<?w] s =
      Some (fold (\<lambda>x. scanPixel img (int y) (int x)) [0..<?w] s) \<and>
      ?I (fold (\<lambda>x. scanPixel img (int y) (int x)) [0..<?w] s)"
    if "y < ?h" "?I s" for y s
  proof (rule foldChecked_fold [where I = ?I])
    fix x and s :: "byte list \<times> Component list"
    assume "x \<in> set [0..<?w]" and "?I s"
    then show "scanPixelChecked img (int y) (int x) s = Some (scanPixel img (int y) (int x) s) \<and>
        ?I (scanPixel img (int y) (int x) s)"
      using scanPixelChecked_safe [OF assms, of "fst s" "int x" "int y" "snd s"] that(1)
      by (simp add: inBounds_def)
  next
    show "?I s" by (rule that(2))
  qed
  have "foldChecked (\<lambda>y. foldChecked (\<lambda>x. scanPixelChecked img (int y) (int x)) [0..<?w])
        [0..<?h] (replicate (?w * ?h) 0, []) =
      Some (fold (\<lambda>y. fold (\<lambda>x. scanPixel img (int y) (int x)) [0..<?w])
        [0..<?h] (replicate (?w * ?h) 0, [])) \<and>
      ?I (fold (\<lambda>y. fold (\<lambda>x. scanPixel img (int y) (int x)) [0..<?w])
        [0..<?h] (replicate (?w * ?h) 0, []))"
  proof (rule foldChecked_fold [where I = ?I])
    fix y and s :: "byte list \<times> Component list"
    assume "y \<in> set [0..<?h]" and "?I s"
    then show "foldChecked (\<lambda>x. scanPixelChecked img (int y) (int x)) [0..<?w] s =
        Some (fold (\<lambda>x. scanPixel img (int y) (int x)) [0..<?w] s) \<and>
        ?I (fold (\<lambda>x. scanPixel img (int y) (int x)) [0..<?w] s)"
      using row by simp
  next
    show "?I (replicate (?w * ?h) 0, [])" by simp
  qed
  then show ?thesis
    by (simp add: labelComponentsChecked_def labelComponents_def)
qed

text \<open>
  C10.  On a buffer of \<open>4 * width * height\<close> bytes, neither loop leaves its arrays.  The
  flood-fill loop may hold any coordinates on its stack, also out-of-range ones (it
  pushes the four neighbours unchecked): every read and write it does is in range,
  because a popped coordinate is range-checked first.  The labeling scan reads and writes
  \<^verbatim>\<open>data\<close> and \<^verbatim>\<open>visited\<close> in range only, because it checks every neighbour before it
  uses its index.  With both dimensions at least 1, the first read of \<^verbatim>\<open>floodFill\<close> at
  each of the four corners is in range as well.
\<close>

theorem accesses_in_range:
  assumes "wellFormed img"
  shows "floodLoopChecked (width img) (height img) stack (data img) =
           Some (floodLoop (width img) (height img) stack (data img)) \<and>
         labelComponentsChecked img = Some (labelComponents img) \<and>
         (1 \<le> width img \<and> 1 \<le> height img \<longrightarrow>
            (\<forall>c\<in>set (cornerList img).
               inRange (data img) (pixelIndex (width img) c * 4) \<and>
               inRange (data img) (pixelIndex (width img) c * 4 + 1)))"
proof -
  from assms have len: "length (data img) = 4 * (width img * height img)"
    by (simp add: wellFormed_def)
  have "inRange (data img) (pixelIndex (width img) c * 4) \<and>
      inRange (data img) (pixelIndex (width img) c * 4 + 1)"
    if "1 \<le> width img" "1 \<le> height img" "c \<in> set (cornerList img)" for c
  proof -
    from that have "inBounds (width img) (height img) c"
      by (auto simp: cornerList_def inBounds_def)
    from inRange_pixel [OF len this, of 0] inRange_pixel [OF len this, of 1] show ?thesis
      by simp
  qed
  with floodLoopChecked_safe [OF len, of stack] labelComponentsChecked_safe [OF assms]
  show ?thesis by blast
qed

theorem accesses_in_range_witness:
  "wellFormed ringDot \<and>
   floodLoopChecked (width ringDot) (height ringDot) [(- 1, 0), (7, 5), (5, 0)] (data ringDot) =
     Some (floodLoop (width ringDot) (height ringDot) [(- 1, 0), (7, 5), (5, 0)] (data ringDot)) \<and>
   labelComponentsChecked ringDot = Some (labelComponents ringDot) \<and>
   inRange (data ringDot) (pixelIndex (width ringDot) (6, 4) * 4 + 1)"
proof -
  have wf: "wellFormed ringDot"
    by (simp add: wellFormed_def ringDot_def)
  have dims: "1 \<le> width ringDot" "1 \<le> height ringDot"
    by (simp_all add: ringDot_def)
  have c: "(6, 4) \<in> set (cornerList ringDot)"
    by (simp add: cornerList_def ringDot_def)
  from accesses_in_range [OF wf, of "[(- 1, 0), (7, 5), (5, 0)]"] wf dims c show ?thesis
    by blast
qed

end
